theory Spec2Isabelle
  imports Main "HOL-Library.Word"
begin

section \<open>The CLFUS RAM cache of iocore/cache/RamCacheCLFUS.cc\<close>

text \<open>
  The cache threads its entries through two intrusive links (\<open>lru_link\<close>, \<open>hash_link\<close>).
  The embedding keeps the entries in a store indexed by address and represents every
  intrusive list (the two LRU queues, the hash chains, the local victims queue) by the
  list of the addresses it links, head first.  \<open>Que::enqueue\<close> appends at the tail,
  \<open>Que::dequeue\<close> takes the head, \<open>DList::push\<close> inserts at the head and \<open>remove\<close>
  unlinks the entry (an entry is linked at most once in a list, so the list without the
  entry is what remains).  Statistics counters and debug output are left out.

  The 64-bit signed counters (\<open>max_bytes\<close>, \<open>bytes\<close>, \<open>objects\<close>, \<open>history\<close>) are
  integers: signed overflow is undefined in the source language and is not modelled.  The
  unsigned fields are machine words, and every unsigned sum such as
  \<open>size + ENTRY_OVERHEAD\<close> wraps as it does in the code.

  A result \<open>None\<close> of a fallible operation stands for a memory fault of the code
  (a copy that reads past the end of a buffer, a read through a null buffer pointer, or a
  read past the end of the table of bucket sizes).
\<close>

subsection \<open>Data\<close>

type_synonym u8 = "8 word"
type_synonym u16 = "16 word"
type_synonym u32 = "32 word"
type_synonym u64 = "64 word"

text \<open>\<open>INK_MD5\<close>: a 128-bit digest read as four 32-bit words; \<open>word(3)\<close> is the hash.\<close>

datatype INK_MD5 = MD5 (word0: u32) (word1: u32) (word2: u32) (word3: u32)

text \<open>
  \<open>IOBufferData\<close>: a block of bytes.  \<open>block_size()\<close> is the length of the block,
  converted to \<open>uint32_t\<close> where the code assigns it to \<open>size\<close>.
\<close>

type_synonym IOBufferData = "u8 list"

definition block_size :: "IOBufferData \<Rightarrow> u32" where
  "block_size d = of_nat (length d)"

text \<open>\<open>memcpy(dst, src, n)\<close> into a fresh buffer of \<open>n\<close> bytes; a fault when \<open>src\<close> is shorter.\<close>

definition memcpy_new :: "IOBufferData \<Rightarrow> u32 \<Rightarrow> IOBufferData option" where
  "memcpy_new src n = (if unat n \<le> length src then Some (take (unat n) src) else None)"

type_synonym eid = nat

record RamCacheCLFUSEntry =
  key :: INK_MD5
  auxkey1 :: u32
  auxkey2 :: u32
  hits :: u64
  size_e :: u32
  len :: u32
  compressed_len :: u32
  flag_compressed :: "3 word"
  flag_incompressible :: bool
  flag_lru :: bool
  flag_copy :: bool
  data :: "IOBufferData option"

text \<open>
  The entry handed out by the class allocator: a copy of the zero-initialised prototype.
\<close>

definition proto_entry :: RamCacheCLFUSEntry where
  "proto_entry = \<lparr> key = MD5 0 0 0 0, auxkey1 = 0, auxkey2 = 0, hits = 0, size_e = 0,
     len = 0, compressed_len = 0, flag_compressed = 0, flag_incompressible = False,
     flag_lru = False, flag_copy = False, data = None \<rparr>"

text \<open>\<open>e->flags = 0\<close> clears the four bit fields of the union at once.\<close>

definition clear_flags :: "RamCacheCLFUSEntry \<Rightarrow> RamCacheCLFUSEntry" where
  "clear_flags en = en\<lparr> flag_compressed := 0, flag_incompressible := False,
     flag_lru := False, flag_copy := False \<rparr>"

record RamCacheCLFUS =
  max_bytes :: int
  bytes :: int
  objects :: int
  history :: int
  ibuckets :: nat
  nbuckets :: nat
  bucket :: "nat \<Rightarrow> eid list"
  lru0 :: "eid list"
  lru1 :: "eid list"
  seen :: "nat \<Rightarrow> u16"
  ncompressed :: int
  compressed :: "eid option"
  heap :: "eid \<Rightarrow> RamCacheCLFUSEntry"
  nalloc :: nat

text \<open>
  \<open>heap\<close> is the store of entries and \<open>nalloc\<close> the next address the allocator hands
  out; a freed entry is never reused and is merely unreachable.
\<close>

definition ENTRY_OVERHEAD :: u32 where
  "ENTRY_OVERHEAD = 256"

definition HISTORY_HYSTERIA :: int where
  "HISTORY_HYSTERIA = 10"

definition REQUEUE_HITS :: "u64 \<Rightarrow> u64" where
  "REQUEUE_HITS h = (if h \<noteq> 0 then 1 else 0)"

definition bucket_sizes :: "nat list" where
  "bucket_sizes = [127, 251, 509, 1021, 2039, 4093, 8191, 16381, 32749, 65521, 131071,
     262139, 524287, 1048573, 2097143, 4194301, 8388593, 16777213, 33554393, 67108859,
     134217689, 268435399, 536870909, 1073741789, 2147483647]"

text \<open>The constructor: every field zero, no bucket array, empty queues.\<close>

definition new_RamCacheCLFUS :: RamCacheCLFUS where
  "new_RamCacheCLFUS = \<lparr> max_bytes = 0, bytes = 0, objects = 0, history = 0, ibuckets = 0,
     nbuckets = 0, bucket = (\<lambda>_. []), lru0 = [], lru1 = [], seen = (\<lambda>_. 0),
     ncompressed = 0, compressed = None, heap = (\<lambda>_. proto_entry), nalloc = 0 \<rparr>"

subsection \<open>Store and queue primitives\<close>

definition upd_entry ::
  "eid \<Rightarrow> (RamCacheCLFUSEntry \<Rightarrow> RamCacheCLFUSEntry) \<Rightarrow> RamCacheCLFUS \<Rightarrow> RamCacheCLFUS" where
  "upd_entry e f c = c\<lparr> heap := (heap c)(e := f (heap c e)) \<rparr>"

text \<open>\<open>key->word(3) % nbuckets\<close>, an unsigned remainder.\<close>

definition bucket_of :: "INK_MD5 \<Rightarrow> RamCacheCLFUS \<Rightarrow> nat" where
  "bucket_of k c = unat (word3 k) mod nbuckets c"

text \<open>\<open>lru[e->flag_bits.lru]\<close>: the queue the entry's flag names.\<close>

definition lru_of :: "RamCacheCLFUS \<Rightarrow> eid \<Rightarrow> eid list" where
  "lru_of c e = (if flag_lru (heap c e) then lru1 c else lru0 c)"

definition lru_remove :: "eid \<Rightarrow> RamCacheCLFUS \<Rightarrow> RamCacheCLFUS" where
  "lru_remove e c = (if flag_lru (heap c e) then c\<lparr> lru1 := removeAll e (lru1 c) \<rparr>
                     else c\<lparr> lru0 := removeAll e (lru0 c) \<rparr>)"

definition lru_enqueue :: "eid \<Rightarrow> RamCacheCLFUS \<Rightarrow> RamCacheCLFUS" where
  "lru_enqueue e c = (if flag_lru (heap c e) then c\<lparr> lru1 := lru1 c @ [e] \<rparr>
                      else c\<lparr> lru0 := lru0 c @ [e] \<rparr>)"

text \<open>\<open>e->lru_link.next\<close> and \<open>e->lru_link.prev\<close> in the queue that links \<open>e\<close>.\<close>

fun link_next :: "eid list \<Rightarrow> eid \<Rightarrow> eid option" where
  "link_next [] e = None"
| "link_next [x] e = None"
| "link_next (x # y # ys) e = (if x = e then Some y else link_next (y # ys) e)"

fun link_prev :: "eid list \<Rightarrow> eid \<Rightarrow> eid option" where
  "link_prev [] e = None"
| "link_prev [x] e = None"
| "link_prev (x # y # ys) e = (if y = e then Some x else link_prev (y # ys) e)"

subsection \<open>resize_hashtable and init\<close>

definition rehash_chain ::
  "(eid \<Rightarrow> RamCacheCLFUSEntry) \<Rightarrow> nat \<Rightarrow> eid list \<Rightarrow> (nat \<Rightarrow> eid list) \<Rightarrow> (nat \<Rightarrow> eid list)" where
  "rehash_chain h an chain nb =
     fold (\<lambda>e nb. nb(unat (word3 (key (h e))) mod an := e # nb (unat (word3 (key (h e))) mod an)))
       chain nb"

definition resize_hashtable :: "RamCacheCLFUS \<Rightarrow> RamCacheCLFUS option" where
  "resize_hashtable c =
     (if ibuckets c < length bucket_sizes then
        (let anbuckets = bucket_sizes ! ibuckets c;
             new_bucket = fold (\<lambda>i nb. rehash_chain (heap c) anbuckets (bucket c i) nb)
                            [0 ..< nbuckets c] (\<lambda>_. [])
         in Some (c\<lparr> bucket := new_bucket, nbuckets := anbuckets, seen := (\<lambda>_. 0) \<rparr>))
      else None)"

definition init :: "int \<Rightarrow> RamCacheCLFUS \<Rightarrow> RamCacheCLFUS option" where
  "init abytes c =
     (let c1 = c\<lparr> max_bytes := abytes \<rparr>
      in if abytes = 0 then Some c1 else resize_hashtable c1)"

subsection \<open>move_compressed, destroy, victimize, tick\<close>

definition move_compressed :: "eid \<Rightarrow> RamCacheCLFUS \<Rightarrow> RamCacheCLFUS" where
  "move_compressed e c =
     (if compressed c = Some e then
        (case link_next (lru_of c e) e of
           Some n \<Rightarrow> c\<lparr> compressed := Some n \<rparr>
         | None \<Rightarrow> c\<lparr> ncompressed := ncompressed c - 1,
                       compressed := link_prev (lru_of c e) e \<rparr>)
      else c)"

definition destroy :: "eid \<Rightarrow> RamCacheCLFUS \<Rightarrow> RamCacheCLFUS" where
  "destroy e c =
     (let c1 = move_compressed e c;
          c2 = lru_remove e c1;
          c3 = (if \<not> flag_lru (heap c2 e) then
                  upd_entry e (\<lambda>en. en\<lparr> data := None \<rparr>)
                    (c2\<lparr> objects := objects c2 - 1,
                        bytes := bytes c2 - uint (size_e (heap c2 e) + ENTRY_OVERHEAD) \<rparr>)
                else c2\<lparr> history := history c2 - 1 \<rparr>);
          b = bucket_of (key (heap c3 e)) c3
      in c3\<lparr> bucket := (bucket c3)(b := removeAll e (bucket c3 b)) \<rparr>)"

definition victimize :: "eid \<Rightarrow> RamCacheCLFUS \<Rightarrow> RamCacheCLFUS" where
  "victimize e c =
     (let c1 = c\<lparr> objects := objects c - 1 \<rparr>;
          c2 = upd_entry e (\<lambda>en. en\<lparr> data := None, flag_lru := True \<rparr>) c1
      in c2\<lparr> lru1 := lru1 c2 @ [e], history := history c2 + 1 \<rparr>)"

text \<open>The tail of \<open>tick\<close> from the label \<open>Lfree\<close>.\<close>

definition tick_free :: "eid \<Rightarrow> RamCacheCLFUS \<Rightarrow> RamCacheCLFUS" where
  "tick_free e c =
     (let c1 = upd_entry e (\<lambda>en. en\<lparr> flag_lru := False \<rparr>) c;
          c2 = c1\<lparr> history := history c1 - 1 \<rparr>;
          b = bucket_of (key (heap c2 e)) c2
      in c2\<lparr> bucket := (bucket c2)(b := removeAll e (bucket c2 b)) \<rparr>)"

text \<open>
  \<open>tick\<close>.  The statement \<open>e->hits <<= 1\<close> is a left shift of the 64-bit counter.  The
  second dequeue always finds an entry, since the first one has just been requeued.
\<close>

definition tick :: "RamCacheCLFUS \<Rightarrow> RamCacheCLFUS" where
  "tick c =
     (case lru1 c of
        [] \<Rightarrow> c
      | e # rest \<Rightarrow>
          (let c1 = upd_entry e (\<lambda>en. en\<lparr> hits := push_bit 1 (hits en) \<rparr>) (c\<lparr> lru1 := rest \<rparr>)
           in if hits (heap c1 e) \<noteq> 0 then
                (let c2 = upd_entry e (\<lambda>en. en\<lparr> hits := REQUEUE_HITS (hits en) \<rparr>) c1;
                     c3 = c2\<lparr> lru1 := lru1 c2 @ [e] \<rparr>
                 in if history c3 \<le> objects c3 + HISTORY_HYSTERIA then c3
                    else (case lru1 c3 of
                            [] \<Rightarrow> c3
                          | e2 # rest2 \<Rightarrow> tick_free e2 (c3\<lparr> lru1 := rest2 \<rparr>)))
              else tick_free e c1))"

subsection \<open>get\<close>

definition entry_match :: "INK_MD5 \<Rightarrow> u32 \<Rightarrow> u32 \<Rightarrow> RamCacheCLFUSEntry \<Rightarrow> bool" where
  "entry_match k a1 a2 en = (key en = k \<and> auxkey1 en = a1 \<and> auxkey2 en = a2)"

text \<open>
  The codecs are external.  A \<open>codec\<close> takes the stored buffer, \<open>compressed_len\<close> and
  \<open>len\<close> and yields the \<open>len\<close> decompressed bytes, or \<open>None\<close> when it reports an
  error or another length.  A \<open>decompressor\<close> is the \<open>switch\<close> on the compression
  type: it names the codec of a type, and is \<open>None\<close> for a type that falls to
  \<open>default\<close> (unknown, or not compiled in), where the code jumps to \<open>Lfailed\<close> without
  touching the buffer.
\<close>

type_synonym codec = "IOBufferData \<Rightarrow> u32 \<Rightarrow> u32 \<Rightarrow> IOBufferData option"

type_synonym decompressor = "3 word \<Rightarrow> codec option"

text \<open>
  \<open>get\<close> returns the return code, the buffer stored through \<open>ret_data\<close> (if any) and
  the new cache.  In copy mode the returned buffer is modelled by the \<open>len\<close> bytes the
  code copies into it.
\<close>

definition get ::
  "decompressor \<Rightarrow> INK_MD5 \<Rightarrow> u32 \<Rightarrow> u32 \<Rightarrow> RamCacheCLFUS
     \<Rightarrow> (int \<times> IOBufferData option \<times> RamCacheCLFUS) option" where
  "get dec k a1 a2 c =
     (if max_bytes c = 0 then Some (0, None, c)
      else
        (case find (\<lambda>p. entry_match k a1 a2 (heap c p)) (bucket c (bucket_of k c)) of
           None \<Rightarrow> Some (0, None, c)
         | Some e \<Rightarrow>
             (let c1 = move_compressed e c;
                  c2 = lru_remove e c1;
                  c3 = lru_enqueue e c2
              in if \<not> flag_lru (heap c3 e) then
                   (let c4 = upd_entry e (\<lambda>en. en\<lparr> hits := hits en + 1 \<rparr>) c3;
                        en = heap c4 e
                    in if flag_compressed en \<noteq> 0 then
                         (case dec (flag_compressed en) of
                            None \<Rightarrow> Some (0, None, destroy e c4)
                          | Some decompress \<Rightarrow>
                              (case data en of
                                 None \<Rightarrow> None
                               | Some d \<Rightarrow>
                                   (case decompress d (compressed_len en) (len en) of
                                      None \<Rightarrow> Some (0, None, destroy e c4)
                                    | Some b \<Rightarrow>
                                        (if \<not> flag_copy en then
                                           Some (1, Some b,
                                             upd_entry e
                                               (\<lambda>x. x\<lparr> size_e := compressed_len x,
                                                         flag_compressed := 0, data := Some b \<rparr>)
                                               (c4\<lparr> bytes := bytes c4
                                                  + (uint (compressed_len en) - uint (size_e en)) \<rparr>))
                                         else Some (1, Some b, c4)))))
                       else
                         (case data en of
                            None \<Rightarrow> None
                          | Some d \<Rightarrow>
                              (if flag_copy en then
                                 (case memcpy_new d (len en) of
                                    None \<Rightarrow> None
                                  | Some b \<Rightarrow> Some (1, Some b, c4))
                               else Some (1, Some d, c4))))
                 else Some (0, None, c3))))"

subsection \<open>fixup\<close>

definition fixup ::
  "INK_MD5 \<Rightarrow> u32 \<Rightarrow> u32 \<Rightarrow> u32 \<Rightarrow> u32 \<Rightarrow> RamCacheCLFUS \<Rightarrow> int \<times> RamCacheCLFUS" where
  "fixup k old_auxkey1 old_auxkey2 new_auxkey1 new_auxkey2 c =
     (if max_bytes c = 0 then (0, c)
      else
        (case find (\<lambda>p. entry_match k old_auxkey1 old_auxkey2 (heap c p))
                (bucket c (bucket_of k c)) of
           None \<Rightarrow> (0, c)
         | Some e \<Rightarrow>
             (1, upd_entry e (\<lambda>en. en\<lparr> auxkey1 := new_auxkey1, auxkey2 := new_auxkey2 \<rparr>) c)))"

subsection \<open>requeue_victims and put\<close>

fun requeue_victims :: "eid list \<Rightarrow> RamCacheCLFUS \<Rightarrow> RamCacheCLFUS" where
  "requeue_victims [] c = c"
| "requeue_victims (victim # victims) c =
     requeue_victims victims
       ((upd_entry victim (\<lambda>en. en\<lparr> hits := REQUEUE_HITS (hits en) \<rparr>)
           (c\<lparr> bytes := bytes c + uint (size_e (heap c victim) + ENTRY_OVERHEAD) \<rparr>))
          \<lparr> lru0 := lru0 c @ [victim] \<rparr>)"

text \<open>
  \<open>CACHE_VALUE\<close> is computed in single-precision floating point, which is outside the
  embedding.  \<open>put\<close> therefore takes the comparison
  \<open>CACHE_VALUE_HITS_SIZE(h1, s1) > CACHE_VALUE_HITS_SIZE(h2, s2)\<close> as a parameter, and
  every theorem about \<open>put\<close> holds for any such comparison.  \<open>exact_value_gt\<close> is the
  comparison of the unrounded quotients, used to run \<open>put\<close> on concrete inputs.
\<close>

type_synonym value_gt = "u64 \<Rightarrow> u32 \<Rightarrow> u64 \<Rightarrow> u32 \<Rightarrow> bool"

definition exact_value_gt :: value_gt where
  "exact_value_gt h1 s1 h2 s2 =
     (unat (h1 + 1) * unat (s2 + ENTRY_OVERHEAD) > unat (h2 + 1) * unat (s1 + ENTRY_OVERHEAD))"

text \<open>
  The debug tag of the \<open>return\<close> that ends \<open>put\<close> (\<open>DISABLED\<close> for the untagged
  return of a cache with \<open>max_bytes = 0\<close>), and the return code it stands for.
\<close>

datatype put_outcome = DISABLED | HIT | INSERTED | UNSEEN | NO_VICTIM | INC_HISTORY | HISTORY

fun put_rc :: "put_outcome \<Rightarrow> int" where
  "put_rc HIT = 1"
| "put_rc INSERTED = 1"
| "put_rc DISABLED = 0"
| "put_rc UNSEEN = 0"
| "put_rc NO_VICTIM = 0"
| "put_rc INC_HISTORY = 0"
| "put_rc HISTORY = 0"

text \<open>
  The lookup loop of \<open>put\<close> over the hash chain: an entry of the same digest with other
  aux keys is destroyed and the walk goes on with its successor.
\<close>

fun put_lookup ::
  "INK_MD5 \<Rightarrow> u32 \<Rightarrow> u32 \<Rightarrow> eid list \<Rightarrow> RamCacheCLFUS \<Rightarrow> eid option \<times> RamCacheCLFUS" where
  "put_lookup k a1 a2 [] c = (None, c)"
| "put_lookup k a1 a2 (e # es) c =
     (if key (heap c e) = k then
        (if auxkey1 (heap c e) = a1 \<and> auxkey2 (heap c e) = a2 then (Some e, c)
         else put_lookup k a1 a2 es (destroy e c))
      else put_lookup k a1 a2 es c)"

text \<open>The branch \<open>already in cache\<close>: the in-place update of an entry on \<open>lru[0]\<close>.\<close>

definition put_hit ::
  "eid \<Rightarrow> u32 \<Rightarrow> IOBufferData \<Rightarrow> u32 \<Rightarrow> bool \<Rightarrow> RamCacheCLFUS
     \<Rightarrow> (put_outcome \<times> RamCacheCLFUS) option" where
  "put_hit e sz dat ln cpy c =
     (let c1 = move_compressed e c;
          c2 = lru_remove e c1;
          c3 = lru_enqueue e c2;
          c4 = c3\<lparr> bytes := bytes c3 + (uint sz - uint (size_e (heap c3 e))) \<rparr>
      in if \<not> cpy then
           Some (HIT, upd_entry e (\<lambda>en. en\<lparr> size_e := sz, data := Some dat,
                                           flag_copy := cpy, flag_compressed := 0 \<rparr>) c4)
         else
           (case memcpy_new dat ln of
              None \<Rightarrow> None
            | Some b \<Rightarrow>
                Some (HIT, upd_entry e (\<lambda>en. en\<lparr> data := Some b, size_e := sz,
                                                flag_copy := cpy, flag_compressed := 0 \<rparr>) c4)))"

text \<open>The victim selection loop \<open>while (1)\<close> and the four ways it is left.\<close>

datatype loop_exit =
    To_Linsert "eid list" RamCacheCLFUS
  | To_Lhistory "eid list" RamCacheCLFUS
  | Ret_NO_VICTIM RamCacheCLFUS
  | Ret_INC_HISTORY RamCacheCLFUS

definition take_victim :: "eid \<Rightarrow> eid list \<Rightarrow> RamCacheCLFUS \<Rightarrow> RamCacheCLFUS" where
  "take_victim victim rest c =
     (let c1 = c\<lparr> lru0 := rest,
                  bytes := bytes c - uint (size_e (heap c victim) + ENTRY_OVERHEAD) \<rparr>;
          c2 = (if compressed c1 = Some victim then c1\<lparr> compressed := None \<rparr>
                else c1\<lparr> ncompressed := ncompressed c1 - 1 \<rparr>);
          c3 = upd_entry victim (\<lambda>en. en\<lparr> hits := push_bit 1 (hits en) \<rparr>) c2
      in tick c3)"

function put_loop ::
  "value_gt \<Rightarrow> u32 \<Rightarrow> eid option \<Rightarrow> eid list \<Rightarrow> RamCacheCLFUS \<Rightarrow> loop_exit" where
  "put_loop vgt sz e victims c =
     (case lru0 c of
        [] \<Rightarrow>
          (if bytes c + uint sz \<le> max_bytes c then To_Linsert victims c
           else Ret_NO_VICTIM
                  (requeue_victims victims
                     (case e of None \<Rightarrow> c | Some p \<Rightarrow> c\<lparr> lru1 := lru1 c @ [p] \<rparr>)))
      | victim # rest \<Rightarrow>
          (let c1 = take_victim victim rest c;
               victims1 = victims @ [victim]
           in case e of
                None \<Rightarrow> To_Lhistory victims1 c1
              | Some p \<Rightarrow>
                  (if bytes c1 + uint (size_e (heap c1 victim)) + uint sz > max_bytes c1
                      \<and> vgt (hits (heap c1 victim)) (size_e (heap c1 victim))
                            (hits (heap c1 p)) (size_e (heap c1 p))
                   then Ret_INC_HISTORY
                          (let c2 = requeue_victims victims1 c1 in c2\<lparr> lru1 := lru1 c2 @ [p] \<rparr>)
                   else if bytes c1 + uint sz \<le> max_bytes c1 then To_Linsert victims1 c1
                   else put_loop vgt sz e victims1 c1)))"
  by pat_completeness auto
termination
proof (relation "measure (\<lambda>(vgt, sz, e, victims, c). length (lru0 c))")
  show "wf (measure (\<lambda>(vgt, sz, e, victims, c). length (lru0 c)))"
    by simp
next
  fix vgt :: value_gt and sz :: u32 and e :: "eid option" and victims :: "eid list"
    and c :: RamCacheCLFUS and victim rest c1 victims1 p
  assume q: "lru0 c = victim # rest" and c1: "c1 = take_victim victim rest c"
  have "lru0 (take_victim victim rest c) = rest"
    by (simp add: take_victim_def tick_def tick_free_def upd_entry_def Let_def
        split: list.split)
  with q c1 show "((vgt, sz, e, victims1, c1), (vgt, sz, e, victims, c))
      \<in> measure (\<lambda>(vgt, sz, e, victims, c). length (lru0 c))"
    by simp
qed

text \<open>The loop at \<open>Linsert\<close> that re-admits or victimizes the collected victims.\<close>

fun put_commit :: "u32 \<Rightarrow> eid list \<Rightarrow> RamCacheCLFUS \<Rightarrow> RamCacheCLFUS" where
  "put_commit sz [] c = c"
| "put_commit sz (victim # victims) c =
     put_commit sz victims
       (if bytes c + uint sz + uint (size_e (heap c victim)) \<le> max_bytes c then
          (upd_entry victim (\<lambda>en. en\<lparr> hits := REQUEUE_HITS (hits en) \<rparr>)
             (c\<lparr> bytes := bytes c + uint (size_e (heap c victim) + ENTRY_OVERHEAD) \<rparr>))
            \<lparr> lru0 := lru0 c @ [victim] \<rparr>
        else victimize victim c)"

text \<open>
  \<open>Linsert\<close>: commit the victims, take the history entry or allocate a new entry and
  push it on chain \<open>i\<close> (growing the table when \<open>objects > nbuckets\<close>), then install
  the payload on \<open>lru[0]\<close>.
\<close>

definition put_insert ::
  "INK_MD5 \<Rightarrow> IOBufferData \<Rightarrow> u32 \<Rightarrow> bool \<Rightarrow> u32 \<Rightarrow> u32 \<Rightarrow> nat \<Rightarrow> u32 \<Rightarrow> eid option
     \<Rightarrow> eid list \<Rightarrow> RamCacheCLFUS \<Rightarrow> (put_outcome \<times> RamCacheCLFUS) option" where
  "put_insert k dat ln cpy a1 a2 i sz e victims c =
     (let c1 = put_commit sz victims c;
          r = (case e of
                 Some p \<Rightarrow> Some (p, c1\<lparr> history := history c1 - 1 \<rparr>)
               | None \<Rightarrow>
                   (let p = nalloc c1;
                        c2 = c1\<lparr> nalloc := p + 1,
                                heap := (heap c1)(p := proto_entry\<lparr> key := k, auxkey1 := a1,
                                                        auxkey2 := a2, hits := 1 \<rparr>),
                                bucket := (bucket c1)(i := p # bucket c1 i) \<rparr>
                    in if objects c2 > int (nbuckets c2) then
                         (case resize_hashtable (c2\<lparr> ibuckets := ibuckets c2 + 1 \<rparr>) of
                            None \<Rightarrow> None
                          | Some c3 \<Rightarrow> Some (p, c3))
                       else Some (p, c2)))
      in case r of
           None \<Rightarrow> None
         | Some (p, c4) \<Rightarrow>
             (case (if cpy then memcpy_new dat ln else Some dat) of
                None \<Rightarrow> None
              | Some b \<Rightarrow>
                  (let c5 = upd_entry p (\<lambda>en. (clear_flags en)\<lparr> data := Some b, flag_copy := cpy,
                                                                  size_e := sz, len := ln \<rparr>) c4
                   in Some (INSERTED,
                        c5\<lparr> bytes := bytes c5 + uint (sz + ENTRY_OVERHEAD),
                            objects := objects c5 + 1,
                            lru0 := lru0 c5 @ [p] \<rparr>))))"

text \<open>\<open>Lhistory\<close>: requeue the victims and start a ghost for the key on \<open>lru[1]\<close>.\<close>

definition put_history ::
  "INK_MD5 \<Rightarrow> IOBufferData \<Rightarrow> u32 \<Rightarrow> u32 \<Rightarrow> nat \<Rightarrow> eid list \<Rightarrow> RamCacheCLFUS
     \<Rightarrow> (put_outcome \<times> RamCacheCLFUS) option" where
  "put_history k dat a1 a2 i victims c =
     (let c1 = requeue_victims victims c;
          p = nalloc c1;
          en = (clear_flags (proto_entry\<lparr> key := k, auxkey1 := a1, auxkey2 := a2, hits := 1,
                                           size_e := block_size dat \<rparr>))\<lparr> flag_lru := True \<rparr>
      in Some (HISTORY,
           c1\<lparr> nalloc := p + 1, heap := (heap c1)(p := en),
               bucket := (bucket c1)(i := p # bucket c1 i),
               lru1 := lru1 c1 @ [p], history := history c1 + 1 \<rparr>))"

text \<open>
  The seen filter, run for a key without a history entry.  It yields \<open>None\<close> on a read
  past the table of bucket sizes, else the cache with the slot overwritten and whether the
  put is rejected.
\<close>

definition seen_slot :: "INK_MD5 \<Rightarrow> RamCacheCLFUS \<Rightarrow> nat" where
  "seen_slot k c = unat (word3 k) mod (bucket_sizes ! ibuckets c)"

definition seen_tag :: "INK_MD5 \<Rightarrow> u16" where
  "seen_tag k = ucast (drop_bit 16 (word3 k))"

definition seen_filter :: "INK_MD5 \<Rightarrow> RamCacheCLFUS \<Rightarrow> (bool \<times> RamCacheCLFUS) option" where
  "seen_filter k c =
     (if ibuckets c < length bucket_sizes then
        (let s = seen_slot k c;
             kk = seen c s;
             c1 = c\<lparr> seen := (seen c)(s := seen_tag k) \<rparr>
         in Some (history c1 \<ge> objects c1 \<and> kk \<noteq> seen_tag k, c1))
      else None)"

text \<open>\<open>put\<close> from the declaration of \<open>victims\<close> on, with \<open>e\<close> the history entry if any.\<close>

definition put_admit ::
  "value_gt \<Rightarrow> INK_MD5 \<Rightarrow> IOBufferData \<Rightarrow> u32 \<Rightarrow> bool \<Rightarrow> u32 \<Rightarrow> u32 \<Rightarrow> nat \<Rightarrow> u32
     \<Rightarrow> eid option \<Rightarrow> RamCacheCLFUS \<Rightarrow> (put_outcome \<times> RamCacheCLFUS) option" where
  "put_admit vgt k dat ln cpy a1 a2 i sz e c =
     (if lru1 c = [] \<and> bytes c + uint sz \<le> max_bytes c then
        put_insert k dat ln cpy a1 a2 i sz e [] c
      else
        (case (if e = None then seen_filter k c else Some (False, c)) of
           None \<Rightarrow> None
         | Some (rejected, c1) \<Rightarrow>
             (if rejected then Some (UNSEEN, c1)
              else
                (case put_loop vgt sz e [] c1 of
                   To_Linsert victims c2 \<Rightarrow> put_insert k dat ln cpy a1 a2 i sz e victims c2
                 | To_Lhistory victims c2 \<Rightarrow> put_history k dat a1 a2 i victims c2
                 | Ret_NO_VICTIM c2 \<Rightarrow> Some (NO_VICTIM, c2)
                 | Ret_INC_HISTORY c2 \<Rightarrow> Some (INC_HISTORY, c2)))))"

definition put ::
  "value_gt \<Rightarrow> INK_MD5 \<Rightarrow> IOBufferData \<Rightarrow> u32 \<Rightarrow> bool \<Rightarrow> u32 \<Rightarrow> u32 \<Rightarrow> RamCacheCLFUS
     \<Rightarrow> (put_outcome \<times> RamCacheCLFUS) option" where
  "put vgt k dat ln cpy a1 a2 c =
     (if max_bytes c = 0 then Some (DISABLED, c)
      else
        (let i = bucket_of k c;
             sz = (if cpy then ln else block_size dat)
         in case put_lookup k a1 a2 (bucket c i) c of
              (None, c1) \<Rightarrow> put_admit vgt k dat ln cpy a1 a2 i sz None c1
            | (Some e, c1) \<Rightarrow>
                (let c2 = upd_entry e (\<lambda>en. en\<lparr> hits := hits en + 1 \<rparr>) c1
                 in if \<not> flag_lru (heap c2 e) then put_hit e sz dat ln cpy c2
                    else put_admit vgt k dat ln cpy a1 a2 i sz (Some e)
                           (c2\<lparr> lru1 := removeAll e (lru1 c2) \<rparr>))))"

subsection \<open>compress_entries: the loop body for one candidate\<close>

text \<open>
  \<open>compress_entry\<close> is the body of the loop of \<open>compress_entries\<close> for the candidate
  \<open>e\<close> under the cursor, from the skip test (line 314) to the label \<open>Lcontinue\<close>;
  \<open>compress_commit\<close> is its last part, from the test of \<open>failed\<close> with the labels
  \<open>Lfailed\<close>.  The counting of \<open>n\<close> against \<open>do_at_most\<close>, the float \<open>target\<close> and the
  advance of the cursor belong to the loop and are not part of it.  \<open>ctype\<close> is
  \<open>cache_config_ram_cache_compress\<close>.

  The codecs are external.  A \<open>compress_codec\<close> takes the entry's buffer and \<open>elen\<close> and
  yields whether it reported success, the length \<open>l\<close> it wrote and the buffer \<open>b\<close>.  A
  \<open>compressor\<close> is the \<open>switch\<close> on the type: \<open>None\<close> for a type that falls to \<open>default\<close>
  (unknown, or not compiled in).  The value of \<open>CACHE_COMPRESSION_FASTLZ\<close> is not in the
  source file; it is the 1 of the configuration table.  For fastlz the code tests the
  returned length (\<open>l <= 0\<close>, on an unsigned \<open>l\<close>), for the other codecs the return code.

  Between the two \<open>switch\<close>es the lock is released; the model is sequential, so the
  re-lookup meets the state the snapshot was taken in.  The re-lookup compares buffers by
  address, the model by contents.

  The code compares \<open>l\<close> with the double products \<open>0.9 * len\<close> and \<open>0.8 * size\<close>.
  For 32-bit operands the rounding of these products never changes the outcome of the
  comparison, so they are written as the integer comparisons \<open>10 l > 9 len\<close> and
  \<open>10 l > 8 size\<close>.
\<close>

definition CACHE_COMPRESSION_FASTLZ :: int where
  "CACHE_COMPRESSION_FASTLZ = 1"

type_synonym compress_codec = "IOBufferData \<Rightarrow> u32 \<Rightarrow> bool \<times> u32 \<times> IOBufferData"

type_synonym compressor = "int \<Rightarrow> compress_codec option"

definition compress_commit ::
  "int \<Rightarrow> bool \<Rightarrow> u32 \<Rightarrow> IOBufferData \<Rightarrow> eid \<Rightarrow> RamCacheCLFUS \<Rightarrow> RamCacheCLFUS option" where
  "compress_commit ctype failed l b e c =
     (if failed then Some (upd_entry e (\<lambda>en. en\<lparr> flag_incompressible := True \<rparr>) c)
      else
        (let c1 = (if 10 * unat l > 9 * unat (len (heap c e))
                   then upd_entry e (\<lambda>en. en\<lparr> flag_incompressible := True \<rparr>) c else c)
         in if 10 * unat l > 8 * unat (size_e (heap c1 e)) then
              Some (upd_entry e (\<lambda>en. en\<lparr> flag_incompressible := True \<rparr>) c1)
            else if l < len (heap c1 e) then
              (case memcpy_new b l of
                 None \<Rightarrow> None
               | Some bb \<Rightarrow>
                   Some (upd_entry e (\<lambda>en. en\<lparr> flag_compressed := word_of_int ctype,
                                                compressed_len := l, size_e := l,
                                                data := Some bb \<rparr>)
                           (c1\<lparr> bytes := bytes c1 + (uint l - uint (size_e (heap c1 e))) \<rparr>)))
            else
              (case data (heap c1 e) of
                 None \<Rightarrow> None
               | Some d \<Rightarrow>
                   (case memcpy_new d (len (heap c1 e)) of
                      None \<Rightarrow> None
                    | Some bb \<Rightarrow>
                        Some (upd_entry e (\<lambda>en. en\<lparr> flag_compressed := 0, size_e := len en,
                                                     data := Some bb \<rparr>)
                                (c1\<lparr> bytes := bytes c1
                                       + (uint (len (heap c1 e)) - uint (size_e (heap c1 e))) \<rparr>))))))"

definition compress_entry ::
  "compressor \<Rightarrow> int \<Rightarrow> eid \<Rightarrow> RamCacheCLFUS \<Rightarrow> RamCacheCLFUS option" where
  "compress_entry cs ctype e c =
     (if flag_incompressible (heap c e) \<or> flag_compressed (heap c e) \<noteq> 0 then Some c
      else
        (let c0 = upd_entry e (\<lambda>en. en\<lparr> compressed_len := size_e en \<rparr>) c
         in case cs ctype of
              None \<Rightarrow> Some c0
            | Some codec \<Rightarrow>
                (if ctype = CACHE_COMPRESSION_FASTLZ \<and> len (heap c0 e) < 16 then
                   Some (upd_entry e (\<lambda>en. en\<lparr> flag_incompressible := True \<rparr>) c0)
                 else
                   (case data (heap c0 e) of
                      None \<Rightarrow> None
                    | Some edata \<Rightarrow>
                        (case codec edata (len (heap c0 e)) of
                           (ok, l, b) \<Rightarrow>
                             (let failed = (if ctype = CACHE_COMPRESSION_FASTLZ then l = 0
                                            else \<not> ok)
                              in if find (\<lambda>p. key (heap c0 p) = key (heap c0 e)
                                              \<and> data (heap c0 p) = Some edata)
                                      (bucket c0 (bucket_of (key (heap c0 e)) c0)) \<noteq> Some e
                                 then Some c0
                                 else compress_commit ctype failed l b e c0))))))"

subsection \<open>Auxiliary notions for the frame of a rejected put\<close>

text \<open>
  \<open>payload_of\<close> forgets the two fields that the clock and the requeueing rewrite (the hit
  counter and the queue flag) and keeps the identity, the sizes, the other flags and the
  buffer.  \<open>victims_bytes\<close> is what a list of victims is charged in \<open>bytes\<close>.
\<close>

definition payload_of :: "RamCacheCLFUSEntry \<Rightarrow> RamCacheCLFUSEntry" where
  "payload_of en = en\<lparr> hits := 0, flag_lru := False \<rparr>"

definition victims_bytes :: "(eid \<Rightarrow> RamCacheCLFUSEntry) \<Rightarrow> eid list \<Rightarrow> int" where
  "victims_bytes h vs = sum_list (map (\<lambda>v. uint (size_e (h v) + ENTRY_OVERHEAD)) vs)"

text \<open>
  \<open>same_frame c c'\<close>: the capacity, the object count, the table size, the seen filter and
  the allocator are the same in both caches, and so is the \<open>payload_of\<close> every entry.
\<close>

definition same_frame :: "RamCacheCLFUS \<Rightarrow> RamCacheCLFUS \<Rightarrow> bool" where
  "same_frame c c' = (max_bytes c' = max_bytes c \<and> objects c' = objects c
     \<and> nbuckets c' = nbuckets c \<and> ibuckets c' = ibuckets c \<and> seen c' = seen c
     \<and> nalloc c' = nalloc c \<and> (\<lambda>p. payload_of (heap c' p)) = (\<lambda>p. payload_of (heap c p)))"

text \<open>
  \<open>put_discard\<close>: the cache when the lookup loop of \<open>put\<close> is over, the entries of the
  digest with conflicting aux keys destroyed.
\<close>

definition put_discard :: "INK_MD5 \<Rightarrow> u32 \<Rightarrow> u32 \<Rightarrow> RamCacheCLFUS \<Rightarrow> RamCacheCLFUS" where
  "put_discard k a1 a2 c = snd (put_lookup k a1 a2 (bucket c (bucket_of k c)) c)"

text \<open>
  The two tests that stand before the victim loop of \<open>put\<close>: the initial-fill shortcut
  (\<open>!lru[1].head\<close> and \<open>bytes + size <= max_bytes\<close>) and the rejection test of the seen
  filter (\<open>history >= objects && kk != k\<close>, with \<open>kk\<close> the slot before it is overwritten).
\<close>

definition initial_fill :: "u32 \<Rightarrow> RamCacheCLFUS \<Rightarrow> bool" where
  "initial_fill sz c = (lru1 c = [] \<and> bytes c + uint sz \<le> max_bytes c)"

definition seen_rejects :: "INK_MD5 \<Rightarrow> RamCacheCLFUS \<Rightarrow> bool" where
  "seen_rejects k c = (history c \<ge> objects c \<and> seen c (seen_slot k c) \<noteq> seen_tag k)"

text \<open>
  \<open>put_conflicts\<close>: the entries that the lookup loop destroys, in the order it meets them:
  those of the key's chain that carry the digest and stand before the first entry that
  matches the aux keys too.
\<close>

definition put_conflicts :: "INK_MD5 \<Rightarrow> u32 \<Rightarrow> u32 \<Rightarrow> RamCacheCLFUS \<Rightarrow> eid list" where
  "put_conflicts k a1 a2 c =
     filter (\<lambda>p. key (heap c p) = k)
       (takeWhile (\<lambda>p. \<not> entry_match k a1 a2 (heap c p)) (bucket c (bucket_of k c)))"

subsection \<open>Concrete caches\<close>

text \<open>
  A cache of 1000 bytes as \<open>init\<close> leaves it, three keys (hash 5, 6 and 65541, the last
  one with seen tag 1), and states that a few puts lead to.
\<close>

definition key_a :: INK_MD5 where
  "key_a = MD5 0 0 0 5"

definition key_b :: INK_MD5 where
  "key_b = MD5 0 0 0 6"

definition key_h :: INK_MD5 where
  "key_h = MD5 0 0 0 65541"

definition cache_1000 :: RamCacheCLFUS where
  "cache_1000 = \<lparr> max_bytes = 1000, bytes = 0, objects = 0, history = 0, ibuckets = 0,
     nbuckets = 127, bucket = (\<lambda>_. []), lru0 = [], lru1 = [], seen = (\<lambda>_. 0),
     ncompressed = 0, compressed = None, heap = (\<lambda>_. proto_entry), nalloc = 0 \<rparr>"

text \<open>An entry on \<open>lru[0]\<close> holding a copied payload, and a ghost on \<open>lru[1]\<close>.\<close>

definition resident ::
  "INK_MD5 \<Rightarrow> u32 \<Rightarrow> u32 \<Rightarrow> u64 \<Rightarrow> IOBufferData \<Rightarrow> RamCacheCLFUSEntry" where
  "resident k a1 a2 h d = \<lparr> key = k, auxkey1 = a1, auxkey2 = a2, hits = h,
     size_e = of_nat (length d), len = of_nat (length d), compressed_len = 0,
     flag_compressed = 0, flag_incompressible = False, flag_lru = False, flag_copy = True,
     data = Some d \<rparr>"

definition ghost :: "INK_MD5 \<Rightarrow> u32 \<Rightarrow> u32 \<Rightarrow> u64 \<Rightarrow> u32 \<Rightarrow> RamCacheCLFUSEntry" where
  "ghost k a1 a2 h sz = \<lparr> key = k, auxkey1 = a1, auxkey2 = a2, hits = h,
     size_e = sz, len = 0, compressed_len = 0,
     flag_compressed = 0, flag_incompressible = False, flag_lru = True, flag_copy = False,
     data = None \<rparr>"

text \<open>After \<open>put(key_a, [1], 1, copy)\<close> on the empty cache.\<close>

definition one_entry_cache :: RamCacheCLFUS where
  "one_entry_cache = cache_1000\<lparr> bytes := 257, objects := 1, bucket := (\<lambda>_. [])(5 := [0]),
     lru0 := [0], heap := (\<lambda>_. proto_entry)(0 := resident key_a 0 0 1 [1]), nalloc := 1 \<rparr>"

text \<open>After a further put of 900 bytes under \<open>key_b\<close>, which only starts a ghost.\<close>

definition ghost_cache :: RamCacheCLFUS where
  "ghost_cache = one_entry_cache\<lparr> history := 1, bucket := (\<lambda>_. [])(5 := [0], 6 := [1]),
     lru1 := [1], ncompressed := - 1,
     heap := (\<lambda>_. proto_entry)(0 := resident key_a 0 0 1 [1], 1 := ghost key_b 0 0 1 900),
     nalloc := 2 \<rparr>"

text \<open>
  A one-entry cache whose entry is stored compressed, and a decompressor whose codecs
  always fail.
\<close>

definition compressed_cache :: RamCacheCLFUS where
  "compressed_cache = cache_1000\<lparr> bytes := 258, objects := 1, bucket := (\<lambda>_. [])(5 := [0]),
     lru0 := [0],
     heap := (\<lambda>_. proto_entry)(0 := (resident key_a 0 0 1 [9, 9])\<lparr> len := 4, compressed_len := 2,
                                       flag_compressed := 1, flag_copy := False \<rparr>),
     nalloc := 1 \<rparr>"

definition failing_codec :: codec where
  "failing_codec src clen n = None"

definition broken_codec :: decompressor where
  "broken_codec ctype = Some failing_codec"

text \<open>
  A one-entry cache with a twenty-byte payload, a candidate for the compressor, and
  compressors that know fastlz alone, whose codec reports \<open>n\<close> bytes written.
\<close>

definition twenty_byte_cache :: RamCacheCLFUS where
  "twenty_byte_cache = cache_1000\<lparr> bytes := 276, objects := 1, bucket := (\<lambda>_. [])(5 := [0]),
     lru0 := [0],
     heap := (\<lambda>_. proto_entry)(0 := resident key_a 0 0 1 (replicate 20 7)),
     nalloc := 1 \<rparr>"

definition fastlz_yielding :: "nat \<Rightarrow> compressor" where
  "fastlz_yielding n ctype =
     (if ctype = CACHE_COMPRESSION_FASTLZ then Some (\<lambda>src elen. (True, of_nat n, replicate n 1))
      else None)"

text \<open>
  Two resident entries of 100 bytes and a ghost of \<open>key_h\<close>; in \<open>drain_cache\<close> the ghost
  has collected nine hits.
\<close>

definition contest_cache :: RamCacheCLFUS where
  "contest_cache = cache_1000\<lparr> bytes := 712, objects := 2, history := 1,
     bucket := (\<lambda>_. [])(5 := [0], 6 := [1], 9 := [2]), lru0 := [0, 1], lru1 := [2],
     heap := (\<lambda>_. proto_entry)(0 := resident key_a 0 0 5 (replicate 100 0),
                                  1 := resident key_b 0 0 1 (replicate 100 0),
                                  2 := ghost key_h 0 0 1 600),
     nalloc := 3 \<rparr>"

definition drain_cache :: RamCacheCLFUS where
  "drain_cache = contest_cache\<lparr>
     heap := (\<lambda>_. proto_entry)(0 := resident key_a 0 0 1 (replicate 100 0),
                                  1 := resident key_b 0 0 1 (replicate 100 0),
                                  2 := ghost key_h 0 0 9 600) \<rparr>"

text \<open>
  A cache whose resident entry carries \<open>key_h\<close> with aux keys 1, 1, beside a ghost of
  \<open>key_b\<close>.
\<close>

definition stale_cache :: RamCacheCLFUS where
  "stale_cache = cache_1000\<lparr> bytes := 257, objects := 1, history := 1,
     bucket := (\<lambda>_. [])(9 := [0], 6 := [1]), lru0 := [0], lru1 := [1], ncompressed := - 1,
     heap := (\<lambda>_. proto_entry)(0 := resident key_h 1 1 1 [1], 1 := ghost key_b 0 0 1 900),
     nalloc := 2 \<rparr>"

section \<open>Properties\<close>

subsection \<open>Unfolding\<close>

lemmas example_defs = key_a_def key_b_def key_h_def cache_1000_def resident_def ghost_def
  one_entry_cache_def ghost_cache_def proto_entry_def compressed_cache_def broken_codec_def
  failing_codec_def
  twenty_byte_cache_def fastlz_yielding_def CACHE_COMPRESSION_FASTLZ_def
  contest_cache_def drain_cache_def
  stale_cache_def

lemmas prim_defs = upd_entry_def bucket_of_def lru_of_def lru_remove_def lru_enqueue_def
  move_compressed_def destroy_def victimize_def tick_free_def tick_def ENTRY_OVERHEAD_def
  HISTORY_HYSTERIA_def REQUEUE_HITS_def block_size_def memcpy_new_def clear_flags_def
  entry_match_def

lemmas put_defs = put_def put_admit_def put_insert_def put_history_def put_hit_def
  seen_filter_def seen_slot_def seen_tag_def take_victim_def bucket_sizes_def

declare put_loop.simps [simp del]

lemma find_Some_set: "find P xs = Some x \<Longrightarrow> x \<in> set xs \<and> P x"
  by (induction xs) (auto split: if_splits)

lemma find_None_set: "find P xs = None \<longleftrightarrow> (\<forall>x\<in>set xs. \<not> P x)"
  by (induction xs) auto

lemma init_cache_1000: "init 1000 new_RamCacheCLFUS = Some cache_1000"
  by (simp add: init_def resize_hashtable_def new_RamCacheCLFUS_def cache_1000_def
      bucket_sizes_def)

lemma one_entry_cache_reached:
  "put vgt key_a [1] 1 True 0 0 cache_1000 = Some (INSERTED, one_entry_cache)"
  by (simp add: example_defs prim_defs put_defs Let_def)

lemma ghost_cache_reached:
  "put vgt key_b (replicate 900 0) 900 True 0 0 one_entry_cache = Some (HISTORY, ghost_cache)"
  by (simp add: example_defs prim_defs put_defs put_loop.simps Let_def fun_upd_twist)
    (simp add: fun_eq_iff)

lemma twenty_byte_cache_reached:
  "put vgt key_a (replicate 20 7) 20 True 0 0 cache_1000 = Some (INSERTED, twenty_byte_cache)"
  by (simp add: example_defs prim_defs put_defs Let_def)

subsection \<open>Put followed by get\<close>

text \<open>
  C1 (the code breaks the round trip).  The cache holds \<open>key_a\<close> with the one-byte payload
  \<open>[1]\<close>, stored in copy mode.  A second put of the two-byte payload \<open>[5, 6]\<close> under the
  same key and aux keys takes the in-place update, which installs the new buffer but leaves
  the entry's \<open>len\<close> at 1; it returns 1.  The get that follows returns 1 and copies
  \<open>len\<close> bytes: the payload handed back is \<open>[5]\<close>, not \<open>[5, 6]\<close>.
\<close>

theorem put_hit_get_stale_len:
  "map_option (\<lambda>(oc, c). (put_rc oc, map_option (\<lambda>(rc, d, c'). (rc, d)) (get dec key_a 0 0 c)))
     (put vgt key_a [5, 6] 2 True 0 0 one_entry_cache) = Some (1, Some (1, Some [5]))"
  by (simp add: example_defs prim_defs put_defs get_def Let_def)

subsection \<open>The history clock\<close>

text \<open>
  C3 (the code shifts the wrong way).  \<open>tick\<close> and the victim loop execute
  \<open>hits <<= 1\<close>, which doubles the counter.  In \<open>ghost_cache\<close> the oldest ghost has
  \<open>hits = 1\<close>: halving would give 0 and free it, but the tick leaves it on the history
  queue, in the index and counted, with \<open>hits = 1\<close>.  Dequeuing the resident entry as a
  victim turns its \<open>hits = 1\<close> into 2 before the value comparison.
\<close>

theorem tick_doubles_hits:
  "lru1 (tick ghost_cache) = [1] \<and> hits (heap (tick ghost_cache) 1) = 1
     \<and> history (tick ghost_cache) = 1 \<and> bucket (tick ghost_cache) 6 = [1]
     \<and> hits (heap ghost_cache 0) = 1 \<and> hits (heap (take_victim 0 [] ghost_cache) 0) = 2"
  by (simp add: example_defs prim_defs take_victim_def Let_def)

subsection \<open>fixup\<close>

text \<open>
  C7.  On an enabled cache \<open>fixup\<close> returns 1 exactly when an entry of the key's chain
  matches the key and both old aux keys.  It then returns the cache in which the store
  differs at that entry alone, and there only in the two aux keys: the queues, the chains,
  the counters and every other field of the entry are the same.  Otherwise it returns 0 and
  the cache as it was.
\<close>

theorem fixup_frame:
  assumes "max_bytes c \<noteq> 0"
  shows "(fst (fixup k o1 o2 n1 n2 c) = 1
            \<longleftrightarrow> (\<exists>e\<in>set (bucket c (bucket_of k c)). entry_match k o1 o2 (heap c e)))
       \<and> (fst (fixup k o1 o2 n1 n2 c) \<noteq> 1 \<longrightarrow> fixup k o1 o2 n1 n2 c = (0, c))
       \<and> (fst (fixup k o1 o2 n1 n2 c) = 1
            \<longrightarrow> (\<exists>e\<in>set (bucket c (bucket_of k c)). entry_match k o1 o2 (heap c e)
                  \<and> snd (fixup k o1 o2 n1 n2 c)
                      = c\<lparr> heap := (heap c)(e := (heap c e)\<lparr> auxkey1 := n1, auxkey2 := n2 \<rparr>) \<rparr>))"
proof (cases "find (\<lambda>p. entry_match k o1 o2 (heap c p)) (bucket c (bucket_of k c))")
  case None
  then have "\<forall>x\<in>set (bucket c (bucket_of k c)). \<not> entry_match k o1 o2 (heap c x)"
    by (simp add: find_None_set)
  with None show ?thesis
    by (auto simp: fixup_def)
next
  case (Some e)
  then have e: "e \<in> set (bucket c (bucket_of k c))" "entry_match k o1 o2 (heap c e)"
    using find_Some_set by fastforce+
  from e assms Some show ?thesis
    by (auto simp: fixup_def upd_entry_def)
qed

theorem fixup_frame_witness:
  "max_bytes one_entry_cache \<noteq> 0
     \<and> fst (fixup key_a 0 0 7 7 one_entry_cache) = 1
     \<and> auxkey1 (heap (snd (fixup key_a 0 0 7 7 one_entry_cache)) 0) = 7
     \<and> auxkey2 (heap (snd (fixup key_a 0 0 7 7 one_entry_cache)) 0) = 7
     \<and> data (heap (snd (fixup key_a 0 0 7 7 one_entry_cache)) 0) = Some [1]
     \<and> lru0 (snd (fixup key_a 0 0 7 7 one_entry_cache)) = [0]"
proof -
  have en: "max_bytes one_entry_cache \<noteq> 0"
    by (simp add: example_defs)
  have m: "\<exists>e\<in>set (bucket one_entry_cache (bucket_of key_a one_entry_cache)).
             entry_match key_a 0 0 (heap one_entry_cache e)"
    by (simp add: example_defs prim_defs)
  from fixup_frame [OF en, of key_a 0 0 7 7] m
  have "fst (fixup key_a 0 0 7 7 one_entry_cache) = 1"
    by blast
  with en show ?thesis
    by (simp add: fixup_def example_defs prim_defs)
qed

subsection \<open>Frame of move_compressed\<close>

lemma heap_move_compressed [simp]: "heap (move_compressed e c) = heap c"
  by (simp add: move_compressed_def split: option.split)

lemma lru0_move_compressed [simp]: "lru0 (move_compressed e c) = lru0 c"
  by (simp add: move_compressed_def split: option.split)

lemma lru1_move_compressed [simp]: "lru1 (move_compressed e c) = lru1 c"
  by (simp add: move_compressed_def split: option.split)

lemma counters_move_compressed [simp]:
  "bytes (move_compressed e c) = bytes c" "objects (move_compressed e c) = objects c"
  "history (move_compressed e c) = history c" "max_bytes (move_compressed e c) = max_bytes c"
  "bucket (move_compressed e c) = bucket c" "nbuckets (move_compressed e c) = nbuckets c"
  "ibuckets (move_compressed e c) = ibuckets c" "seen (move_compressed e c) = seen c"
  "nalloc (move_compressed e c) = nalloc c"
  by (simp_all add: move_compressed_def split: option.split)

subsection \<open>Decompression failure in get\<close>

text \<open>
  C6.  Let \<open>get\<close> on an enabled cache match the entry \<open>e\<close>, which is on \<open>lru[0]\<close> and
  is stored compressed, and let the decompression fail: the compression type falls to the
  \<open>default\<close> of the switch, or its codec fails on the entry's buffer.  Then
  \<open>get\<close> returns 0 and no buffer, and the entry is destroyed: it is gone from \<open>lru[0]\<close>
  and from its hash chain, its buffer is released, \<open>objects\<close> is one less and \<open>bytes\<close>
  is less by the entry's \<open>size + ENTRY_OVERHEAD\<close>; the history queue and its count are
  untouched.
\<close>

theorem get_decompress_failure:
  assumes en: "max_bytes c \<noteq> 0"
    and f: "find (\<lambda>p. entry_match k a1 a2 (heap c p)) (bucket c (bucket_of k c)) = Some e"
    and l0: "\<not> flag_lru (heap c e)"
    and cz: "flag_compressed (heap c e) \<noteq> 0"
    and fail: "dec (flag_compressed (heap c e)) = None
      \<or> (\<exists>decompress d. dec (flag_compressed (heap c e)) = Some decompress
            \<and> data (heap c e) = Some d
            \<and> decompress d (compressed_len (heap c e)) (len (heap c e)) = None)"
  shows "\<exists>c'. get dec k a1 a2 c = Some (0, None, c')
       \<and> lru0 c' = removeAll e (lru0 c) \<and> e \<notin> set (lru0 c') \<and> lru1 c' = lru1 c
       \<and> bucket c' = (bucket c)(bucket_of k c := removeAll e (bucket c (bucket_of k c)))
       \<and> e \<notin> set (bucket c' (bucket_of k c))
       \<and> objects c' = objects c - 1
       \<and> bytes c' = bytes c - uint (size_e (heap c e) + ENTRY_OVERHEAD)
       \<and> history c' = history c \<and> data (heap c' e) = None"
proof -
  from f have k: "key (heap c e) = k"
    using find_Some_set [of _ _ e] by (fastforce simp: entry_match_def)
  define c4 where "c4 = upd_entry e (\<lambda>en. en\<lparr> hits := hits en + 1 \<rparr>)
      (lru_enqueue e (lru_remove e (move_compressed e c)))"
  have g: "get dec k a1 a2 c = Some (0, None, destroy e c4)"
    using en f l0 cz fail
    by (auto simp: get_def Let_def c4_def upd_entry_def lru_enqueue_def lru_remove_def)
  have c4: "heap c4 e = (heap c e)\<lparr> hits := hits (heap c e) + 1 \<rparr>"
    "lru0 c4 = removeAll e (lru0 c) @ [e]" "lru1 c4 = lru1 c" "bucket c4 = bucket c"
    "objects c4 = objects c" "bytes c4 = bytes c" "history c4 = history c"
    "nbuckets c4 = nbuckets c"
    using l0 by (simp_all add: c4_def upd_entry_def lru_enqueue_def lru_remove_def)
  have "lru0 (destroy e c4) = removeAll e (lru0 c)"
    "lru1 (destroy e c4) = lru1 c"
    "bucket (destroy e c4) = (bucket c)(bucket_of k c := removeAll e (bucket c (bucket_of k c)))"
    "objects (destroy e c4) = objects c - 1"
    "bytes (destroy e c4) = bytes c - uint (size_e (heap c e) + ENTRY_OVERHEAD)"
    "history (destroy e c4) = history c" "data (heap (destroy e c4) e) = None"
    using l0 k c4
    by (simp_all add: destroy_def Let_def lru_remove_def upd_entry_def bucket_of_def)
  with g show ?thesis
    by simp
qed

theorem get_decompress_failure_witness:
  "max_bytes compressed_cache \<noteq> 0
   \<and> find (\<lambda>p. entry_match key_a 0 0 (heap compressed_cache p))
        (bucket compressed_cache (bucket_of key_a compressed_cache)) = Some 0
   \<and> \<not> flag_lru (heap compressed_cache 0)
   \<and> flag_compressed (heap compressed_cache 0) \<noteq> 0
   \<and> broken_codec (flag_compressed (heap compressed_cache 0)) = Some failing_codec
   \<and> data (heap compressed_cache 0) = Some [9, 9]
   \<and> failing_codec [9, 9] (compressed_len (heap compressed_cache 0))
        (len (heap compressed_cache 0)) = None
   \<and> map_option (\<lambda>(rc, d, c'). (rc, d, lru0 c', bucket c' 5, objects c', bytes c'))
        (get broken_codec key_a 0 0 compressed_cache) = Some (0, None, [], [], 0, 0)"
proof -
  have h: "max_bytes compressed_cache \<noteq> 0"
    "find (\<lambda>p. entry_match key_a 0 0 (heap compressed_cache p))
        (bucket compressed_cache (bucket_of key_a compressed_cache)) = Some 0"
    "\<not> flag_lru (heap compressed_cache 0)"
    "flag_compressed (heap compressed_cache 0) \<noteq> 0"
    by (simp_all add: example_defs prim_defs)
  have d: "broken_codec (flag_compressed (heap compressed_cache 0)) = Some failing_codec"
    "data (heap compressed_cache 0) = Some [9, 9]"
    "failing_codec [9, 9] (compressed_len (heap compressed_cache 0))
        (len (heap compressed_cache 0)) = None"
    by (simp_all add: example_defs prim_defs)
  then have "broken_codec (flag_compressed (heap compressed_cache 0)) = None
      \<or> (\<exists>decompress d. broken_codec (flag_compressed (heap compressed_cache 0)) = Some decompress
            \<and> data (heap compressed_cache 0) = Some d
            \<and> decompress d (compressed_len (heap compressed_cache 0))
                  (len (heap compressed_cache 0)) = None)"
    by blast
  from get_decompress_failure [where dec = broken_codec and c = compressed_cache and k = key_a
      and e = 0, OF h this] obtain c' where
    "get broken_codec key_a 0 0 compressed_cache = Some (0, None, c')"
    "lru0 c' = removeAll 0 (lru0 compressed_cache)"
    "bucket c' = (bucket compressed_cache)(bucket_of key_a compressed_cache :=
        removeAll 0 (bucket compressed_cache (bucket_of key_a compressed_cache)))"
    "objects c' = objects compressed_cache - 1"
    "bytes c' = bytes compressed_cache - uint (size_e (heap compressed_cache 0) + ENTRY_OVERHEAD)"
    by blast
  with h d show ?thesis
    by (simp add: example_defs prim_defs)
qed

subsection \<open>The compressor's decision for one candidate\<close>

text \<open>
  C8 as stated fails.  The candidate is taken by fastlz, has \<open>len = size = 20\<close> (so it
  passes the guard \<open>len < 16\<close>) and the codec wrote \<open>l = 17\<close> bytes: \<open>l\<close> does not exceed
  \<open>0.9 * len = 18\<close> but exceeds \<open>0.8 * size = 16\<close>.  The buffer is abandoned through
  \<open>Lfailed\<close>, which marks the entry incompressible.
\<close>

theorem compress_entry_shrink_counterexample:
  "\<not> flag_incompressible (heap twenty_byte_cache 0)
   \<and> flag_compressed (heap twenty_byte_cache 0) = 0
   \<and> 16 \<le> len (heap twenty_byte_cache 0)
   \<and> fastlz_yielding 17 CACHE_COMPRESSION_FASTLZ = Some (\<lambda>src elen. (True, 17, replicate 17 1))
   \<and> \<not> 9 * unat (len (heap twenty_byte_cache 0)) < 10 * unat (17 :: u32)
   \<and> 8 * unat (size_e (heap twenty_byte_cache 0)) < 10 * unat (17 :: u32)
   \<and> map_option (\<lambda>c'. (flag_incompressible (heap c' 0), flag_compressed (heap c' 0),
                        size_e (heap c' 0), data (heap c' 0), bytes c'))
        (compress_entry (fastlz_yielding 17) CACHE_COMPRESSION_FASTLZ 0 twenty_byte_cache)
      = Some (True, 0, 20, Some (replicate 20 7), 276)"
  by (simp add: example_defs compress_entry_def compress_commit_def prim_defs Let_def)

text \<open>
  C8, amended.  Let the candidate be neither compressed nor marked incompressible, let
  the configured type have a codec (and \<open>len \<ge> 16\<close> if it is fastlz), let the codec
  succeed with \<open>l\<close> bytes and let the re-lookup find the entry again.  In every case
  \<open>compressed_len\<close> is first set to \<open>size\<close>.  If \<open>l > 0.8 * size\<close> the buffer is abandoned
  and the entry is marked incompressible; nothing else changes.  Otherwise the entry is
  marked incompressible exactly when \<open>l > 0.9 * len\<close>, and, if \<open>l < len\<close>, the compressed
  buffer is stored: \<open>compressed\<close> is the algorithm, \<open>compressed_len\<close> and \<open>size\<close> are \<open>l\<close>
  and \<open>bytes\<close> changes by \<open>l\<close> minus the old size; if \<open>l \<ge> len\<close> the entry gets a private
  uncompressed copy of its \<open>len\<close> bytes, with \<open>size = len\<close>.
\<close>

theorem compress_entry_decision:
  assumes cand: "\<not> flag_incompressible (heap c e)" "flag_compressed (heap c e) = 0"
    and sel: "cs ctype = Some codec"
    and long: "ctype = CACHE_COMPRESSION_FASTLZ \<longrightarrow> 16 \<le> len (heap c e)"
    and buf: "data (heap c e) = Some d"
    and out: "codec d (len (heap c e)) = (ok, l, b)"
    and good: "if ctype = CACHE_COMPRESSION_FASTLZ then l \<noteq> 0 else ok"
    and found: "find (\<lambda>p. key (heap c p) = key (heap c e) \<and> data (heap c p) = Some d)
                  (bucket c (bucket_of (key (heap c e)) c)) = Some e"
  shows "(8 * unat (size_e (heap c e)) < 10 * unat l
      \<longrightarrow> compress_entry cs ctype e c
            = Some (upd_entry e (\<lambda>en. en\<lparr> compressed_len := size_e en,
                                         flag_incompressible := True \<rparr>) c))
   \<and> (10 * unat l \<le> 8 * unat (size_e (heap c e)) \<and> l < len (heap c e) \<and> unat l \<le> length b
      \<longrightarrow> compress_entry cs ctype e c
            = Some (upd_entry e
                      (\<lambda>en. en\<lparr> flag_incompressible := (9 * unat (len en) < 10 * unat l),
                                 flag_compressed := word_of_int ctype, compressed_len := l,
                                 size_e := l, data := Some (take (unat l) b) \<rparr>)
                      (c\<lparr> bytes := bytes c + (uint l - uint (size_e (heap c e))) \<rparr>)))
   \<and> (10 * unat l \<le> 8 * unat (size_e (heap c e)) \<and> \<not> l < len (heap c e)
        \<and> unat (len (heap c e)) \<le> length d
      \<longrightarrow> compress_entry cs ctype e c
            = Some (upd_entry e
                      (\<lambda>en. en\<lparr> flag_incompressible := (9 * unat (len en) < 10 * unat l),
                                 flag_compressed := 0, compressed_len := size_e en,
                                 size_e := len en, data := Some (take (unat (len en)) d) \<rparr>)
                      (c\<lparr> bytes := bytes c
                             + (uint (len (heap c e)) - uint (size_e (heap c e))) \<rparr>)))"
proof -
  let ?c0 = "upd_entry e (\<lambda>en. en\<lparr> compressed_len := size_e en \<rparr>) c"
  have k: "\<And>p. key (heap ?c0 p) = key (heap c p)"
    and dd: "\<And>p. data (heap ?c0 p) = data (heap c p)"
    and b: "bucket ?c0 = bucket c" "bucket_of (key (heap c e)) ?c0 = bucket_of (key (heap c e)) c"
    by (simp_all add: upd_entry_def bucket_of_def)
  have f: "find (\<lambda>p. key (heap ?c0 p) = key (heap ?c0 e) \<and> data (heap ?c0 p) = Some d)
                  (bucket ?c0 (bucket_of (key (heap ?c0 e)) ?c0)) = Some e"
    using found by (simp only: k dd b)
  have nf: "\<not> (if ctype = CACHE_COMPRESSION_FASTLZ then l = 0 else \<not> ok)"
    using good by (simp split: if_splits)
  have lg: "\<not> (ctype = CACHE_COMPRESSION_FASTLZ \<and> len (heap ?c0 e) < 16)"
    using long by (auto simp add: upd_entry_def)
  have o: "codec d (len (heap ?c0 e)) = (ok, l, b)" "data (heap ?c0 e) = Some d"
    using out buf by (simp_all add: upd_entry_def)
  have step: "compress_entry cs ctype e c = compress_commit ctype False l b e ?c0"
    unfolding compress_entry_def Let_def using cand sel lg o f nf
    by (cases "ctype = CACHE_COMPRESSION_FASTLZ") simp_all
  have eqI: "\<And>r1 r2 bs. r1 = r2 \<Longrightarrow>
      c\<lparr> bytes := bs, heap := (heap c)(e := r1) \<rparr> = c\<lparr> bytes := bs, heap := (heap c)(e := r2) \<rparr>"
    "\<And>r1 r2. r1 = r2 \<Longrightarrow>
      c\<lparr> heap := (heap c)(e := r1) \<rparr> = c\<lparr> heap := (heap c)(e := r2) \<rparr>"
    by simp_all
  show ?thesis
    unfolding step using cand buf
    apply (auto simp add: compress_commit_def upd_entry_def memcpy_new_def Let_def)
    apply (rule eqI, rule RamCacheCLFUSEntry.equality; simp)+
    done
qed

theorem compress_entry_decision_witness:
  "map_option (\<lambda>c'. (flag_compressed (heap c' 0), compressed_len (heap c' 0), size_e (heap c' 0),
                        data (heap c' 0), flag_incompressible (heap c' 0), bytes c'))
        (compress_entry (fastlz_yielding 12) CACHE_COMPRESSION_FASTLZ 0 twenty_byte_cache)
       = Some (1, 12, 12, Some (replicate 12 1), False, 268)"
proof -
  have "compress_entry (fastlz_yielding 12) CACHE_COMPRESSION_FASTLZ 0 twenty_byte_cache
      = Some (upd_entry 0
                (\<lambda>en. en\<lparr> flag_incompressible := (9 * unat (len en) < 10 * unat (12 :: u32)),
                           flag_compressed := word_of_int CACHE_COMPRESSION_FASTLZ,
                           compressed_len := 12,
                           size_e := 12, data := Some (take (unat (12 :: u32)) (replicate 12 1)) \<rparr>)
                (twenty_byte_cache\<lparr> bytes := bytes twenty_byte_cache
                     + (uint (12 :: u32) - uint (size_e (heap twenty_byte_cache 0))) \<rparr>))"
    using compress_entry_decision [where c = twenty_byte_cache and e = 0
        and cs = "fastlz_yielding 12" and ctype = CACHE_COMPRESSION_FASTLZ
        and codec = "\<lambda>src elen. (True, 12, replicate 12 1)" and d = "replicate 20 7"
        and ok = True and l = 12 and b = "replicate 12 1"]
    by (simp add: example_defs prim_defs)
  then show ?thesis
    by (simp add: example_defs upd_entry_def)
qed

subsection \<open>Frames of the clock, the victim step and the requeueing\<close>

lemma payload_of_simps [simp]:
  "payload_of (en\<lparr> hits := h \<rparr>) = payload_of en"
  "payload_of (en\<lparr> flag_lru := b \<rparr>) = payload_of en"
  by (simp_all add: payload_of_def)

lemma payload_of_size: "payload_of x = payload_of y \<Longrightarrow> size_e x = size_e y"
  by (drule arg_cong [where f = size_e]) (simp add: payload_of_def)

lemma tick_frame [simp]:
  "lru0 (tick c) = lru0 c" "bytes (tick c) = bytes c" "max_bytes (tick c) = max_bytes c"
  "objects (tick c) = objects c" "nbuckets (tick c) = nbuckets c" "ibuckets (tick c) = ibuckets c"
  "seen (tick c) = seen c" "nalloc (tick c) = nalloc c"
  by (simp_all add: tick_def tick_free_def upd_entry_def Let_def split: list.split)

lemma tick_payload [simp]: "payload_of (heap (tick c) p) = payload_of (heap c p)"
  by (simp add: tick_def tick_free_def upd_entry_def Let_def split: list.split)

lemma take_victim_frame [simp]:
  "lru0 (take_victim v rest c) = rest"
  "bytes (take_victim v rest c) = bytes c - uint (size_e (heap c v) + ENTRY_OVERHEAD)"
  "max_bytes (take_victim v rest c) = max_bytes c"
  "objects (take_victim v rest c) = objects c" "nbuckets (take_victim v rest c) = nbuckets c"
  "ibuckets (take_victim v rest c) = ibuckets c"
  "seen (take_victim v rest c) = seen c" "nalloc (take_victim v rest c) = nalloc c"
  by (simp_all add: take_victim_def upd_entry_def Let_def)

lemma take_victim_payload [simp]:
  "payload_of (heap (take_victim v rest c) p) = payload_of (heap c p)"
  by (simp add: take_victim_def upd_entry_def Let_def)


lemma requeue_victims_frame [simp]:
  "lru0 (requeue_victims vs c) = lru0 c @ vs" "lru1 (requeue_victims vs c) = lru1 c"
  "history (requeue_victims vs c) = history c" "bucket (requeue_victims vs c) = bucket c"
  "max_bytes (requeue_victims vs c) = max_bytes c" "objects (requeue_victims vs c) = objects c"
  "nbuckets (requeue_victims vs c) = nbuckets c" "ibuckets (requeue_victims vs c) = ibuckets c"
  "seen (requeue_victims vs c) = seen c" "nalloc (requeue_victims vs c) = nalloc c"
  by (induction vs arbitrary: c; simp add: upd_entry_def)+

lemma requeue_victims_payload [simp]:
  "payload_of (heap (requeue_victims vs c) p) = payload_of (heap c p)"
  by (induction vs arbitrary: c) (simp_all add: upd_entry_def)

lemma requeue_victims_other: "p \<notin> set vs \<Longrightarrow> heap (requeue_victims vs c) p = heap c p"
  by (induction vs arbitrary: c) (simp_all add: upd_entry_def)

lemma requeue_one_bytes:
  "bytes (requeue_victims [v] (take_victim v rest c)) = bytes c"
proof -
  have "size_e (heap (take_victim v rest c) v) = size_e (heap c v)"
    by (rule payload_of_size) simp
  then show ?thesis
    by (simp add: upd_entry_def)
qed

lemma take_victim_seen:
  "take_victim v rest (c\<lparr> seen := s \<rparr>) = (take_victim v rest c)\<lparr> seen := s \<rparr>"
  by (simp add: take_victim_def tick_def tick_free_def upd_entry_def bucket_of_def Let_def
      split: list.split)

lemma put_lookup_absent:
  "\<forall>p\<in>set es. key (heap c p) \<noteq> k \<Longrightarrow> put_lookup k a1 a2 es c = (None, c)"
  by (induction es) simp_all

lemma put_loop_new_key:
  "lru0 c = v # rest \<Longrightarrow> put_loop vgt sz None [] c = To_Lhistory [v] (take_victim v rest c)"
  by (subst put_loop.simps) (simp add: Let_def)

lemma put_loop_drained:
  "lru0 c = [] \<Longrightarrow> put_loop vgt sz None [] c
     = (if bytes c + uint sz \<le> max_bytes c then To_Linsert [] c else Ret_NO_VICTIM c)"
  by (subst put_loop.simps) simp

subsection \<open>Admission of a new key\<close>

text \<open>
  C10.  Take a put on an enabled cache for a key whose chain holds no entry of that digest.
  If the put passes the seen filter, \<open>lru[0]\<close> is non-empty, and \<open>lru[1]\<close> is
  non-empty or \<open>bytes + size > max_bytes\<close>, then the put returns with the tag
  \<open>HISTORY\<close> (return code 0): it has dequeued the one victim at the head of \<open>lru[0]\<close>
  and requeued it at the back, \<open>bytes\<close> and \<open>objects\<close> are as before, and a new ghost
  for the key is at the back of \<open>lru[1]\<close> and at the head of the key's chain.
  And whenever such a put installs the payload (tag \<open>INSERTED\<close>), then
  \<open>bytes + size \<le> max_bytes\<close> held and \<open>lru[1]\<close> or \<open>lru[0]\<close> was empty.
\<close>

theorem put_new_key_admission:
  assumes en: "max_bytes c \<noteq> 0"
    and absent: "\<forall>p\<in>set (bucket c (bucket_of k c)). key (heap c p) \<noteq> k"
  shows "(ibuckets c < length bucket_sizes
          \<and> \<not> (objects c \<le> history c \<and> seen c (seen_slot k c) \<noteq> seen_tag k)
          \<and> lru0 c = v # rest
          \<and> (lru1 c \<noteq> [] \<or> max_bytes c < bytes c + uint (if cpy then ln else block_size dat))
          \<longrightarrow> (\<exists>c'. put vgt k dat ln cpy a1 a2 c = Some (HISTORY, c') \<and> put_rc HISTORY = 0
                 \<and> lru0 c' = rest @ [v]
                 \<and> lru1 c' = lru1 (take_victim v rest c) @ [nalloc c]
                 \<and> heap c' (nalloc c) = ghost k a1 a2 1 (block_size dat)
                 \<and> bucket c' (bucket_of k c) = nalloc c # bucket (take_victim v rest c) (bucket_of k c)
                 \<and> history c' = history (take_victim v rest c) + 1
                 \<and> objects c' = objects c \<and> bytes c' = bytes c))
       \<and> (\<forall>c'. put vgt k dat ln cpy a1 a2 c = Some (INSERTED, c')
             \<longrightarrow> (lru1 c = [] \<or> lru0 c = [])
                 \<and> bytes c + uint (if cpy then ln else block_size dat) \<le> max_bytes c)"
proof (intro conjI impI allI)
  assume h: "ibuckets c < length bucket_sizes
          \<and> \<not> (objects c \<le> history c \<and> seen c (seen_slot k c) \<noteq> seen_tag k)
          \<and> lru0 c = v # rest
          \<and> (lru1 c \<noteq> [] \<or> max_bytes c < bytes c + uint (if cpy then ln else block_size dat))"
  define c1 where "c1 = c\<lparr> seen := (seen c)(seen_slot k c := seen_tag k) \<rparr>"
  have l: "lru0 c1 = v # rest"
    using h by (simp add: c1_def)
  have p: "put vgt k dat ln cpy a1 a2 c
      = put_history k dat a1 a2 (bucket_of k c) [v] (take_victim v rest c1)"
    using en h put_lookup_absent [OF absent, of a1 a2] put_loop_new_key [OF l, of vgt]
    by (auto simp: put_def put_admit_def seen_filter_def Let_def c1_def)
  have b: "bytes (requeue_victims [v] (take_victim v rest c1)) = bytes c"
    using requeue_one_bytes [of v rest c1] by (simp add: c1_def)
  show "\<exists>c'. put vgt k dat ln cpy a1 a2 c = Some (HISTORY, c') \<and> put_rc HISTORY = 0
                 \<and> lru0 c' = rest @ [v]
                 \<and> lru1 c' = lru1 (take_victim v rest c) @ [nalloc c]
                 \<and> heap c' (nalloc c) = ghost k a1 a2 1 (block_size dat)
                 \<and> bucket c' (bucket_of k c) = nalloc c # bucket (take_victim v rest c) (bucket_of k c)
                 \<and> history c' = history (take_victim v rest c) + 1
                 \<and> objects c' = objects c \<and> bytes c' = bytes c"
    unfolding p put_history_def Let_def using b
    by (simp add: take_victim_seen ghost_def proto_entry_def clear_flags_def c1_def upd_entry_def)
next
  fix c'
  assume i: "put vgt k dat ln cpy a1 a2 c = Some (INSERTED, c')"
  show "lru1 c = [] \<or> lru0 c = []"
  proof (rule ccontr)
    assume "\<not> (lru1 c = [] \<or> lru0 c = [])"
    then obtain v rest where l: "lru0 c = v # rest" and n: "lru1 c \<noteq> []"
      by (cases "lru0 c") auto
    have "lru0 (c\<lparr> seen := (seen c)(seen_slot k c := seen_tag k) \<rparr>) = v # rest"
      using l by simp
    from put_loop_new_key [OF this, of vgt] i en n put_lookup_absent [OF absent, of a1 a2]
    show False
      by (auto simp: put_def put_admit_def seen_filter_def put_history_def Let_def
          split: if_splits)
  qed
  show "bytes c + uint (if cpy then ln else block_size dat) \<le> max_bytes c"
  proof (rule ccontr)
    assume n: "\<not> bytes c + uint (if cpy then ln else block_size dat) \<le> max_bytes c"
    show False
    proof (cases "lru0 c")
      case Nil
      then have "lru0 (c\<lparr> seen := (seen c)(seen_slot k c := seen_tag k) \<rparr>) = []"
        by simp
      from put_loop_drained [OF this, of vgt] i en n put_lookup_absent [OF absent, of a1 a2]
      show False
        by (auto simp: put_def put_admit_def seen_filter_def Let_def split: if_splits)
    next
      case (Cons v rest)
      then have "lru0 (c\<lparr> seen := (seen c)(seen_slot k c := seen_tag k) \<rparr>) = v # rest"
        by simp
      from put_loop_new_key [OF this, of vgt] i en n put_lookup_absent [OF absent, of a1 a2]
      show False
        by (auto simp: put_def put_admit_def seen_filter_def put_history_def Let_def
            split: if_splits)
    qed
  qed
qed

theorem put_new_key_admission_witness:
  "max_bytes one_entry_cache \<noteq> 0
   \<and> bucket one_entry_cache (bucket_of key_b one_entry_cache) = []
   \<and> ibuckets one_entry_cache < length bucket_sizes
   \<and> \<not> objects one_entry_cache \<le> history one_entry_cache
   \<and> lru0 one_entry_cache = [0]
   \<and> max_bytes one_entry_cache
        < bytes one_entry_cache + uint (if True then 900 else block_size (replicate 900 0))
   \<and> map_option (\<lambda>(oc, c'). (oc, lru0 c', lru1 c', objects c', bytes c'))
        (put exact_value_gt key_b (replicate 900 0) 900 True 0 0 one_entry_cache)
       = Some (HISTORY, [0], [1], 1, 257)"
proof -
  have h: "max_bytes one_entry_cache \<noteq> 0"
    "bucket one_entry_cache (bucket_of key_b one_entry_cache) = []"
    "ibuckets one_entry_cache < length bucket_sizes"
    "\<not> objects one_entry_cache \<le> history one_entry_cache"
    "lru0 one_entry_cache = [0]"
    "max_bytes one_entry_cache
        < bytes one_entry_cache + uint (if True then 900 else block_size (replicate 900 0))"
    by (simp_all add: example_defs prim_defs bucket_sizes_def)
  then have a: "\<forall>p\<in>set (bucket one_entry_cache (bucket_of key_b one_entry_cache)).
      key (heap one_entry_cache p) \<noteq> key_b"
    by simp
  from put_new_key_admission [OF h(1) a, of 0 "[]" True 900 "replicate 900 0" exact_value_gt 0 0] h
  obtain c' where "put exact_value_gt key_b (replicate 900 0) 900 True 0 0 one_entry_cache = Some (HISTORY, c')"
    "lru0 c' = [] @ [0]" "lru1 c' = lru1 (take_victim 0 [] one_entry_cache) @ [nalloc one_entry_cache]"
    "objects c' = objects one_entry_cache" "bytes c' = bytes one_entry_cache"
    by auto
  with h show ?thesis
    by (simp add: example_defs prim_defs take_victim_def Let_def)
qed

subsection \<open>The victim loop\<close>

lemma same_frame_refl [simp]: "same_frame c c"
  by (simp add: same_frame_def)

lemma same_frame_trans: "same_frame a b \<Longrightarrow> same_frame b c \<Longrightarrow> same_frame a c"
  by (simp add: same_frame_def)

lemma same_frame_take_victim [simp]:
  "same_frame c (take_victim v rest c') = same_frame c c'"
  by (simp add: same_frame_def)

lemma same_frame_requeue [simp]: "same_frame c (requeue_victims vs c') = same_frame c c'"
  by (simp add: same_frame_def)

lemma same_frame_lru1 [simp]: "same_frame c (c'\<lparr> lru1 := q \<rparr>) = same_frame c c'"
  by (simp add: same_frame_def)

lemma victims_bytes_cong:
  "(\<lambda>p. payload_of (h' p)) = (\<lambda>p. payload_of (h p)) \<Longrightarrow> victims_bytes h' vs = victims_bytes h vs"
proof -
  assume "(\<lambda>p. payload_of (h' p)) = (\<lambda>p. payload_of (h p))"
  then have "\<And>p. payload_of (h' p) = payload_of (h p)"
    by (rule fun_cong)
  then have "\<And>p. size_e (h' p) = size_e (h p)"
    by (rule payload_of_size)
  then show ?thesis
    by (simp add: victims_bytes_def)
qed

lemma victims_bytes_same_frame:
  "same_frame c c' \<Longrightarrow> victims_bytes (heap c') vs = victims_bytes (heap c) vs"
  by (rule victims_bytes_cong) (simp add: same_frame_def)

lemma victims_bytes_snoc [simp]:
  "victims_bytes h (vs @ [v]) = victims_bytes h vs + uint (size_e (h v) + ENTRY_OVERHEAD)"
  by (simp add: victims_bytes_def)

lemma victims_bytes_Nil [simp]: "victims_bytes h [] = 0"
  by (simp add: victims_bytes_def)

lemma requeue_victims_bytes:
  "bytes (requeue_victims vs c) = bytes c + victims_bytes (heap c) vs"
proof (induction vs arbitrary: c)
  case Nil
  show ?case by simp
next
  case (Cons v vs)
  let ?c1 = "(upd_entry v (\<lambda>en. en\<lparr> hits := REQUEUE_HITS (hits en) \<rparr>)
           (c\<lparr> bytes := bytes c + uint (size_e (heap c v) + ENTRY_OVERHEAD) \<rparr>))
          \<lparr> lru0 := lru0 c @ [v] \<rparr>"
  have "victims_bytes (heap ?c1) vs = victims_bytes (heap c) vs"
    by (rule victims_bytes_cong) (simp add: upd_entry_def fun_eq_iff)
  with Cons [of ?c1] show ?case
    by (simp add: victims_bytes_def upd_entry_def)
qed

lemma put_loop_Nil:
  "lru0 c = [] \<Longrightarrow> put_loop vgt sz e vs c
     = (if bytes c + uint sz \<le> max_bytes c then To_Linsert vs c
        else Ret_NO_VICTIM (requeue_victims vs
               (case e of None \<Rightarrow> c | Some p \<Rightarrow> c\<lparr> lru1 := lru1 c @ [p] \<rparr>)))"
  by (subst put_loop.simps) simp

lemma put_loop_Cons_None:
  "lru0 c = v # rest \<Longrightarrow> put_loop vgt sz None vs c = To_Lhistory (vs @ [v]) (take_victim v rest c)"
  by (subst put_loop.simps) (simp add: Let_def)

lemma put_loop_Cons_Some:
  "lru0 c = v # rest \<Longrightarrow> put_loop vgt sz (Some p) vs c =
     (if max_bytes (take_victim v rest c)
           < bytes (take_victim v rest c) + uint (size_e (heap (take_victim v rest c) v)) + uint sz
         \<and> vgt (hits (heap (take_victim v rest c) v)) (size_e (heap (take_victim v rest c) v))
               (hits (heap (take_victim v rest c) p)) (size_e (heap (take_victim v rest c) p))
      then Ret_INC_HISTORY ((requeue_victims (vs @ [v]) (take_victim v rest c))
              \<lparr> lru1 := lru1 (requeue_victims (vs @ [v]) (take_victim v rest c)) @ [p] \<rparr>)
      else if bytes (take_victim v rest c) + uint sz \<le> max_bytes (take_victim v rest c)
      then To_Linsert (vs @ [v]) (take_victim v rest c)
      else put_loop vgt sz (Some p) (vs @ [v]) (take_victim v rest c))"
  by (subst put_loop.simps) (simp add: Let_def)

lemma put_loop_rejected:
  assumes "lru0 c = q"
    and "put_loop vgt sz e vs c = Ret_NO_VICTIM c' \<or> put_loop vgt sz e vs c = Ret_INC_HISTORY c'"
  shows "same_frame c c' \<and> bytes c' = bytes c + victims_bytes (heap c) vs"
  using assms
proof (induction q arbitrary: c vs)
  case Nil
  then show ?case
    by (auto simp: put_loop_Nil requeue_victims_bytes split: if_splits option.splits)
next
  case (Cons v rest)
  let ?c1 = "take_victim v rest c"
  have l: "lru0 ?c1 = rest"
    by simp
  have f: "same_frame c ?c1"
    by simp
  have vb: "victims_bytes (heap ?c1) (vs @ [v]) = victims_bytes (heap c) (vs @ [v])"
    using f by (rule victims_bytes_same_frame)
  show ?case
  proof (cases e)
    case None
    with Cons.prems show ?thesis
      by (simp add: put_loop_Cons_None)
  next
    case (Some p)
    from Cons.prems(2) consider
      (lost) "c' = (requeue_victims (vs @ [v]) ?c1)\<lparr> lru1 := lru1 (requeue_victims (vs @ [v]) ?c1) @ [p] \<rparr>"
      | (more) "put_loop vgt sz e (vs @ [v]) ?c1 = Ret_NO_VICTIM c'
                \<or> put_loop vgt sz e (vs @ [v]) ?c1 = Ret_INC_HISTORY c'"
      unfolding Some put_loop_Cons_Some [OF Cons.prems(1)]
      by (auto split: if_splits)
    then show ?thesis
    proof cases
      case lost
      have "same_frame c c'"
        unfolding lost by simp
      moreover have "bytes c' = bytes c + victims_bytes (heap c) vs"
        unfolding lost using vb by (simp add: requeue_victims_bytes)
      ultimately show ?thesis ..
    next
      case more
      from Cons.IH [OF l more] have ih: "same_frame ?c1 c'"
        "bytes c' = bytes ?c1 + victims_bytes (heap ?c1) (vs @ [v])"
        by simp_all
      have "same_frame c c'"
        by (rule same_frame_trans [OF f ih(1)])
      moreover have "bytes c' = bytes c + victims_bytes (heap c) vs"
        unfolding ih(2) vb by simp
      ultimately show ?thesis ..
    qed
  qed
qed

lemma put_loop_lru0:
  assumes "lru0 c = q"
  shows "(put_loop vgt sz e vs c = Ret_NO_VICTIM c' \<longrightarrow> lru0 c' = vs @ q)
       \<and> (put_loop vgt sz e vs c = Ret_INC_HISTORY c'
            \<longrightarrow> (\<exists>n. 0 < n \<and> n \<le> length q \<and> lru0 c' = drop n q @ vs @ take n q))"
  using assms
proof (induction q arbitrary: c vs)
  case Nil
  then show ?case
    by (auto simp: put_loop_Nil split: if_splits option.splits)
next
  case (Cons v rest)
  let ?c1 = "take_victim v rest c"
  have l: "lru0 ?c1 = rest"
    by simp
  show ?case
  proof (cases e)
    case None
    with Cons.prems show ?thesis
      by (simp add: put_loop_Cons_None)
  next
    case (Some p)
    note ih = Cons.IH [OF l, of "vs @ [v]"]
    show ?thesis
    proof (intro conjI impI)
      assume "put_loop vgt sz e vs c = Ret_NO_VICTIM c'"
      then have "put_loop vgt sz e (vs @ [v]) ?c1 = Ret_NO_VICTIM c'"
        unfolding Some put_loop_Cons_Some [OF Cons.prems(1)] by (auto split: if_splits)
      with ih show "lru0 c' = vs @ v # rest"
        by simp
    next
      assume "put_loop vgt sz e vs c = Ret_INC_HISTORY c'"
      then consider
        (lost) "c' = (requeue_victims (vs @ [v]) ?c1)\<lparr> lru1 := lru1 (requeue_victims (vs @ [v]) ?c1) @ [p] \<rparr>"
        | (more) "put_loop vgt sz e (vs @ [v]) ?c1 = Ret_INC_HISTORY c'"
        unfolding Some put_loop_Cons_Some [OF Cons.prems(1)] by (auto split: if_splits)
      then show "\<exists>n. 0 < n \<and> n \<le> length (v # rest)
          \<and> lru0 c' = drop n (v # rest) @ vs @ take n (v # rest)"
      proof cases
        case lost
        then have "lru0 c' = drop 1 (v # rest) @ vs @ take 1 (v # rest)"
          by simp
        then show ?thesis
          by (intro exI [of _ 1]) simp
      next
        case more
        with ih obtain n where "0 < n" "n \<le> length rest"
          "lru0 c' = drop n rest @ (vs @ [v]) @ take n rest"
          by blast
        then show ?thesis
          by (intro exI [of _ "Suc n"]) simp
      qed
    qed
  qed
qed

subsection \<open>From put to its loop\<close>

lemma destroy_frame [simp]:
  "max_bytes (destroy e c) = max_bytes c" "nbuckets (destroy e c) = nbuckets c"
  "ibuckets (destroy e c) = ibuckets c" "seen (destroy e c) = seen c"
  "nalloc (destroy e c) = nalloc c"
  by (simp_all add: destroy_def lru_remove_def upd_entry_def Let_def)

lemma destroy_bytes: "bytes (destroy e c) \<le> bytes c"
  by (simp add: destroy_def lru_remove_def upd_entry_def Let_def)

lemma put_lookup_frame:
  "max_bytes (snd (put_lookup k a1 a2 es c)) = max_bytes c
   \<and> nbuckets (snd (put_lookup k a1 a2 es c)) = nbuckets c
   \<and> ibuckets (snd (put_lookup k a1 a2 es c)) = ibuckets c
   \<and> seen (snd (put_lookup k a1 a2 es c)) = seen c
   \<and> nalloc (snd (put_lookup k a1 a2 es c)) = nalloc c
   \<and> bytes (snd (put_lookup k a1 a2 es c)) \<le> bytes c"
proof (induction es arbitrary: c)
  case Nil
  show ?case by simp
next
  case (Cons e es)
  from Cons [of "destroy e c"] Cons [of c] destroy_bytes [of e c] show ?case
    by simp
qed



lemma put_insert_outcome: "put_insert k dat ln cpy a1 a2 i sz e vs c = Some (oc, c') \<Longrightarrow> oc = INSERTED"
  by (auto simp: put_insert_def Let_def split: option.splits if_splits prod.splits)

lemma put_history_outcome: "put_history k dat a1 a2 i vs c = Some (oc, c') \<Longrightarrow> oc = HISTORY"
  by (auto simp: put_history_def Let_def)

lemma put_hit_outcome: "put_hit e sz dat ln cpy c = Some (oc, c') \<Longrightarrow> oc = HIT"
  by (auto simp: put_hit_def Let_def split: option.splits if_splits)


subsection \<open>Requeueing on a rejected admission\<close>




lemma put_cases:
  assumes p: "put vgt k dat ln cpy a1 a2 c = Some (oc, c')"
  obtains (disabled) "max_bytes c = 0" "oc = DISABLED" "c' = c"
  | (hit) e c1 where "max_bytes c \<noteq> 0"
      "put_lookup k a1 a2 (bucket c (bucket_of k c)) c = (Some e, c1)" "oc = HIT"
      "put_hit e (if cpy then ln else block_size dat) dat ln cpy
         (upd_entry e (\<lambda>en. en\<lparr> hits := hits en + 1 \<rparr>) c1) = Some (HIT, c')"
  | (admit) eo ca where "max_bytes c \<noteq> 0"
      "put_admit vgt k dat ln cpy a1 a2 (bucket_of k c) (if cpy then ln else block_size dat) eo ca
         = Some (oc, c')"
      "lru0 ca = lru0 (put_discard k a1 a2 c)" "bytes ca = bytes (put_discard k a1 a2 c)"
      "same_frame (put_discard k a1 a2 c) ca"
      "eo = None \<longrightarrow> ca = put_discard k a1 a2 c"
      "fst (put_lookup k a1 a2 (bucket c (bucket_of k c)) c) = eo"
      "bucket ca = bucket (put_discard k a1 a2 c)"
      "set (lru1 ca) \<subseteq> set (lru1 (put_discard k a1 a2 c))"
      "\<And>p. flag_lru (heap ca p) = flag_lru (heap (put_discard k a1 a2 c) p)"
proof (cases "max_bytes c = 0")
  case True
  with p have "oc = DISABLED" "c' = c"
    by (simp_all add: put_def)
  with True show ?thesis
    by (rule disabled)
next
  case en: False
  obtain eo c1 where lk: "put_lookup k a1 a2 (bucket c (bucket_of k c)) c = (eo, c1)"
    by (cases "put_lookup k a1 a2 (bucket c (bucket_of k c)) c")
  then have cd: "put_discard k a1 a2 c = c1"
    by (simp add: put_discard_def)
  show ?thesis
  proof (cases eo)
    case None
    with p en lk have "put_admit vgt k dat ln cpy a1 a2 (bucket_of k c)
        (if cpy then ln else block_size dat) None c1 = Some (oc, c')"
      by (simp add: put_def Let_def)
    with en lk cd None show ?thesis
      by (intro admit [of None c1]) simp_all
  next
    case (Some e)
    let ?c2 = "upd_entry e (\<lambda>en. en\<lparr> hits := hits en + 1 \<rparr>) c1"
    show ?thesis
    proof (cases "flag_lru (heap ?c2 e)")
      case False
      with p en lk Some have h: "put_hit e (if cpy then ln else block_size dat) dat ln cpy ?c2 = Some (oc, c')"
        by (simp add: put_def Let_def)
      then have "oc = HIT"
        by (rule put_hit_outcome)
      with h en lk Some show ?thesis
        by (intro hit [of e c1]) simp_all
    next
      case True
      let ?ca = "?c2\<lparr> lru1 := removeAll e (lru1 ?c2) \<rparr>"
      from True p en lk Some
      have "put_admit vgt k dat ln cpy a1 a2 (bucket_of k c) (if cpy then ln else block_size dat)
              (Some e) ?ca = Some (oc, c')"
        by (simp add: put_def Let_def)
      moreover have "lru0 ?ca = lru0 c1" "bytes ?ca = bytes c1" "same_frame c1 ?ca"
        "bucket ?ca = bucket c1" "set (lru1 ?ca) \<subseteq> set (lru1 c1)"
        "\<And>p. flag_lru (heap ?ca p) = flag_lru (heap c1 p)"
        by (auto simp add: upd_entry_def same_frame_def fun_eq_iff)
      ultimately show ?thesis
        using en cd lk Some by (intro admit [of "Some e" ?ca]) simp_all
    qed
  qed
qed

lemma put_admit_cases:
  assumes p: "put_admit vgt k dat ln cpy a1 a2 i sz eo ca = Some (oc, c')"
  obtains (fill) "lru1 ca = []" "bytes ca + uint sz \<le> max_bytes ca"
      "put_insert k dat ln cpy a1 a2 i sz eo [] ca = Some (oc, c')" "oc = INSERTED"
  | (unseen) "\<not> (lru1 ca = [] \<and> bytes ca + uint sz \<le> max_bytes ca)"
      "eo = None" "oc = UNSEEN" "ibuckets ca < length bucket_sizes"
      "c' = ca\<lparr> seen := (seen ca)(seen_slot k ca := seen_tag k) \<rparr>"
      "objects ca \<le> history ca" "seen ca (seen_slot k ca) \<noteq> seen_tag k"
  | (loop) cb where "\<not> (lru1 ca = [] \<and> bytes ca + uint sz \<le> max_bytes ca)"
      "cb = (if eo = None then ca\<lparr> seen := (seen ca)(seen_slot k ca := seen_tag k) \<rparr> else ca)"
      "eo = None \<longrightarrow> ibuckets ca < length bucket_sizes
          \<and> \<not> (objects ca \<le> history ca \<and> seen ca (seen_slot k ca) \<noteq> seen_tag k)"
      "(case put_loop vgt sz eo [] cb of
           To_Linsert victims c2 \<Rightarrow> put_insert k dat ln cpy a1 a2 i sz eo victims c2
         | To_Lhistory victims c2 \<Rightarrow> put_history k dat a1 a2 i victims c2
         | Ret_NO_VICTIM c2 \<Rightarrow> Some (NO_VICTIM, c2)
         | Ret_INC_HISTORY c2 \<Rightarrow> Some (INC_HISTORY, c2)) = Some (oc, c')"
proof (cases "lru1 ca = [] \<and> bytes ca + uint sz \<le> max_bytes ca")
  case True
  with p have i: "put_insert k dat ln cpy a1 a2 i sz eo [] ca = Some (oc, c')"
    by (simp add: put_admit_def)
  then have "oc = INSERTED"
    by (rule put_insert_outcome)
  with True i show ?thesis
    by (intro fill) simp_all
next
  case nf: False
  show ?thesis
  proof (cases "eo = None")
    case False
    from p nf False have "(case put_loop vgt sz eo [] ca of
           To_Linsert victims c2 \<Rightarrow> put_insert k dat ln cpy a1 a2 i sz eo victims c2
         | To_Lhistory victims c2 \<Rightarrow> put_history k dat a1 a2 i victims c2
         | Ret_NO_VICTIM c2 \<Rightarrow> Some (NO_VICTIM, c2)
         | Ret_INC_HISTORY c2 \<Rightarrow> Some (INC_HISTORY, c2)) = Some (oc, c')"
      by (auto simp: put_admit_def)
    moreover have "ca = (if eo = None then ca\<lparr> seen := (seen ca)(seen_slot k ca := seen_tag k) \<rparr>
        else ca)"
      using False by auto
    moreover have "eo = None \<longrightarrow> ibuckets ca < length bucket_sizes
          \<and> \<not> (objects ca \<le> history ca \<and> seen ca (seen_slot k ca) \<noteq> seen_tag k)"
      using False by auto
    ultimately show ?thesis
      using nf by (intro loop [of ca])
  next
    case None: True
    show ?thesis
    proof (cases "ibuckets ca < length bucket_sizes")
      case False
      with p nf None show ?thesis
        by (simp add: put_admit_def seen_filter_def)
    next
      case tb: True
      show ?thesis
      proof (cases "objects ca \<le> history ca \<and> seen ca (seen_slot k ca) \<noteq> seen_tag k")
        case True
        with p nf None tb have "oc = UNSEEN"
          "c' = ca\<lparr> seen := (seen ca)(seen_slot k ca := seen_tag k) \<rparr>"
          by (auto simp: put_admit_def seen_filter_def Let_def)
        with nf None tb True show ?thesis
          by (intro unseen) auto
      next
        case False
        from p nf tb False have "(case put_loop vgt sz eo []
              (ca\<lparr> seen := (seen ca)(seen_slot k ca := seen_tag k) \<rparr>) of
           To_Linsert victims c2 \<Rightarrow> put_insert k dat ln cpy a1 a2 i sz eo victims c2
         | To_Lhistory victims c2 \<Rightarrow> put_history k dat a1 a2 i victims c2
         | Ret_NO_VICTIM c2 \<Rightarrow> Some (NO_VICTIM, c2)
         | Ret_INC_HISTORY c2 \<Rightarrow> Some (INC_HISTORY, c2)) = Some (oc, c')"
          unfolding None by (simp add: put_admit_def seen_filter_def Let_def)
        moreover have "ca\<lparr> seen := (seen ca)(seen_slot k ca := seen_tag k) \<rparr>
            = (if eo = None then ca\<lparr> seen := (seen ca)(seen_slot k ca := seen_tag k) \<rparr> else ca)"
          using None by simp
        moreover have "eo = None \<longrightarrow> ibuckets ca < length bucket_sizes
            \<and> \<not> (objects ca \<le> history ca \<and> seen ca (seen_slot k ca) \<noteq> seen_tag k)"
          using tb False by simp
        ultimately show ?thesis
          using nf by (intro loop [of "ca\<lparr> seen := (seen ca)(seen_slot k ca := seen_tag k) \<rparr>"])
      qed
    qed
  qed
qed

subsection \<open>Bounds on bytes\<close>

lemma uint_ENTRY_OVERHEAD [simp]: "uint ENTRY_OVERHEAD = 256"
  by (simp add: ENTRY_OVERHEAD_def)

lemma uint_plus_overhead: "uint (x + ENTRY_OVERHEAD) \<le> uint x + 256"
  using uint_add_le [of x ENTRY_OVERHEAD] by simp

lemma put_loop_Linsert:
  assumes "lru0 c = q" and "put_loop vgt sz e vs c = To_Linsert vs' c'"
  shows "bytes c' + uint sz \<le> max_bytes c' \<and> max_bytes c' = max_bytes c"
  using assms
proof (induction q arbitrary: c vs)
  case Nil
  then show ?case
    by (auto simp: put_loop_Nil split: if_splits)
next
  case (Cons v rest)
  let ?c1 = "take_victim v rest c"
  have l: "lru0 ?c1 = rest"
    by simp
  show ?case
  proof (cases e)
    case None
    with Cons.prems show ?thesis
      by (simp add: put_loop_Cons_None)
  next
    case (Some p)
    from Cons.prems(2) consider
      (fits) "c' = ?c1" "bytes ?c1 + uint sz \<le> max_bytes ?c1"
      | (more) "put_loop vgt sz e (vs @ [v]) ?c1 = To_Linsert vs' c'"
      unfolding Some put_loop_Cons_Some [OF Cons.prems(1)]
      by (auto split: if_splits)
    then show ?thesis
    proof cases
      case fits
      then show ?thesis by simp
    next
      case more
      from Cons.IH [OF l more] show ?thesis by simp
    qed
  qed
qed

lemma victimize_frame [simp]:
  "bytes (victimize v c) = bytes c" "max_bytes (victimize v c) = max_bytes c"
  by (simp_all add: victimize_def upd_entry_def Let_def)

lemma put_commit_bound:
  "max_bytes (put_commit sz vs c) = max_bytes c
   \<and> (bytes c + uint sz \<le> max_bytes c + 256
        \<longrightarrow> bytes (put_commit sz vs c) + uint sz \<le> max_bytes c + 256)"
proof (induction vs arbitrary: c)
  case Nil
  show ?case by simp
next
  case (Cons v vs)
  let ?c1 = "(upd_entry v (\<lambda>en. en\<lparr> hits := REQUEUE_HITS (hits en) \<rparr>)
             (c\<lparr> bytes := bytes c + uint (size_e (heap c v) + ENTRY_OVERHEAD) \<rparr>))
            \<lparr> lru0 := lru0 c @ [v] \<rparr>"
  show ?case
  proof (cases "bytes c + uint sz + uint (size_e (heap c v)) \<le> max_bytes c")
    case True
    have m: "max_bytes ?c1 = max_bytes c"
      by (simp add: upd_entry_def)
    have "bytes ?c1 = bytes c + uint (size_e (heap c v) + ENTRY_OVERHEAD)"
      by (simp add: upd_entry_def)
    with True uint_plus_overhead [of "size_e (heap c v)"]
    have "bytes ?c1 + uint sz \<le> max_bytes ?c1 + 256"
      unfolding m by linarith
    with Cons [of ?c1] m True show ?thesis
      by simp
  next
    case False
    with Cons [of "victimize v c"] show ?thesis
      by simp
  qed
qed

lemma resize_hashtable_frame:
  "resize_hashtable c = Some c' \<Longrightarrow> bytes c' = bytes c \<and> max_bytes c' = max_bytes c"
  by (auto simp: resize_hashtable_def Let_def split: if_splits)

lemma put_insert_bound:
  assumes "put_insert k dat ln cpy a1 a2 i sz e vs c = Some (oc, c')"
    and "bytes c + uint sz \<le> max_bytes c"
  shows "bytes c' \<le> max_bytes c + 512 \<and> max_bytes c' = max_bytes c"
proof -
  let ?c1 = "put_commit sz vs c"
  from put_commit_bound [of sz vs c] assms(2)
  have b: "bytes ?c1 + uint sz \<le> max_bytes c + 256" and m: "max_bytes ?c1 = max_bytes c"
    by simp_all
  from assms(1) have "bytes c' = bytes ?c1 + uint (sz + ENTRY_OVERHEAD) \<and> max_bytes c' = max_bytes ?c1"
    by (auto simp: put_insert_def Let_def upd_entry_def resize_hashtable_def
        split: option.splits if_splits)
  with b m uint_plus_overhead [of sz] show ?thesis
    by simp
qed

lemma put_loop_Lhistory:
  assumes "lru0 c = q" and "put_loop vgt sz e vs c = To_Lhistory vs' c'"
  shows "e = None \<and> (\<exists>v rest. q = v # rest \<and> vs' = vs @ [v] \<and> c' = take_victim v rest c)"
  using assms
proof (induction q arbitrary: c vs)
  case Nil
  then show ?case
    by (auto simp: put_loop_Nil split: if_splits)
next
  case (Cons v rest)
  have l: "lru0 (take_victim v rest c) = rest"
    by simp
  show ?case
  proof (cases e)
    case None
    with Cons.prems show ?thesis
      by (simp add: put_loop_Cons_None)
  next
    case (Some p)
    from Cons.prems(2) have "put_loop vgt sz e (vs @ [v]) (take_victim v rest c) = To_Lhistory vs' c'"
      unfolding Some put_loop_Cons_Some [OF Cons.prems(1)]
      by (auto split: if_splits)
    from Cons.IH [OF l this] Some show ?thesis
      by simp
  qed
qed

lemma put_history_bytes:
  "put_history k dat a1 a2 i [v] (take_victim v rest c) = Some (oc, c')
     \<Longrightarrow> bytes c' = bytes c \<and> max_bytes c' = max_bytes c"
  using requeue_one_bytes [of v rest c]
  by (auto simp: put_history_def Let_def simp del: requeue_victims.simps)

lemma put_hit_bytes:
  "put_hit e sz dat ln cpy c = Some (oc, c')
     \<Longrightarrow> bytes c' \<le> bytes c + uint sz \<and> max_bytes c' = max_bytes c"
  by (auto simp: put_hit_def Let_def upd_entry_def lru_remove_def lru_enqueue_def
      split: option.splits if_splits)

text \<open>
  C2, amended.  The capacity tests of \<open>put\<close> compare \<open>bytes + size\<close> with
  \<open>max_bytes\<close>, while an entry is charged \<open>size + ENTRY_OVERHEAD\<close>.  So a put that
  installs its payload through \<open>Linsert\<close> ends with
  \<open>bytes \<le> max_bytes + 2 * ENTRY_OVERHEAD\<close>: one overhead for the last victim
  re-admitted, one for the new entry.  The in-place update makes no capacity test: it ends
  with \<open>bytes\<close> at most the old value plus the new size.  A put that does not store
  never raises \<open>bytes\<close>.  No put changes \<open>max_bytes\<close>.
\<close>

theorem put_bytes_bounds:
  assumes p: "put vgt k dat ln cpy a1 a2 c = Some (oc, c')"
  shows "(oc = INSERTED \<longrightarrow> bytes c' \<le> max_bytes c + 2 * uint ENTRY_OVERHEAD)
       \<and> (oc = HIT \<longrightarrow> bytes c' \<le> bytes c + uint (if cpy then ln else block_size dat))
       \<and> (put_rc oc = 0 \<longrightarrow> bytes c' \<le> bytes c)
       \<and> max_bytes c' = max_bytes c"
  using p
proof (cases rule: put_cases)
  case disabled
  then show ?thesis by simp
next
  case (hit e c1)
  let ?c2 = "upd_entry e (\<lambda>en. en\<lparr> hits := hits en + 1 \<rparr>) c1"
  from put_lookup_frame [of k a1 a2 "bucket c (bucket_of k c)" c] hit(2)
  have "bytes c1 \<le> bytes c" "max_bytes c1 = max_bytes c"
    by simp_all
  then have "bytes ?c2 \<le> bytes c" "max_bytes ?c2 = max_bytes c"
    by (simp_all add: upd_entry_def)
  with put_hit_bytes [OF hit(4)] hit(3) show ?thesis
    by simp
next
  case (admit eo ca)
  let ?sz = "if cpy then ln else block_size dat"
  from put_lookup_frame [of k a1 a2 "bucket c (bucket_of k c)" c]
  have "bytes (put_discard k a1 a2 c) \<le> bytes c" "max_bytes (put_discard k a1 a2 c) = max_bytes c"
    by (simp_all add: put_discard_def)
  with admit(4,5) have ca: "bytes ca \<le> bytes c" "max_bytes ca = max_bytes c"
    by (simp_all add: same_frame_def)
  from admit(2) show ?thesis
  proof (cases rule: put_admit_cases)
    case fill
    from put_insert_bound [OF fill(3) fill(2)] fill(4) ca show ?thesis
      by simp
  next
    case unseen
    with ca show ?thesis
      by simp
  next
    case (loop cb)
    from loop(2) ca have cb: "bytes cb \<le> bytes c" "max_bytes cb = max_bytes c"
      by (simp_all split: if_splits)
    show ?thesis
    proof (cases "put_loop vgt ?sz eo [] cb")
      case (To_Linsert vs c2)
      with loop(4) have i: "put_insert k dat ln cpy a1 a2 (bucket_of k c) ?sz eo vs c2 = Some (oc, c')"
        by simp
      from put_loop_Linsert [OF refl To_Linsert]
      have "bytes c2 + uint ?sz \<le> max_bytes c2" "max_bytes c2 = max_bytes cb"
        by simp_all
      with put_insert_bound [OF i] put_insert_outcome [OF i] cb show ?thesis
        by simp
    next
      case (To_Lhistory vs c2)
      with loop(4) have h: "put_history k dat a1 a2 (bucket_of k c) vs c2 = Some (oc, c')"
        by simp
      from put_loop_Lhistory [OF refl To_Lhistory] obtain v rest where
        "vs = [v]" "c2 = take_victim v rest cb"
        by auto
      with put_history_bytes [of k dat a1 a2 "bucket_of k c" v rest cb oc c'] h
        put_history_outcome [OF h] cb
      show ?thesis
        by simp
    next
      case (Ret_NO_VICTIM c2)
      with loop(4) have "oc = NO_VICTIM" "c2 = c'"
        by simp_all
      with put_loop_rejected [OF refl, of vgt ?sz eo "[]" cb c'] Ret_NO_VICTIM cb
      show ?thesis
        by (simp add: same_frame_def)
    next
      case (Ret_INC_HISTORY c2)
      with loop(4) have "oc = INC_HISTORY" "c2 = c'"
        by simp_all
      with put_loop_rejected [OF refl, of vgt ?sz eo "[]" cb c'] Ret_INC_HISTORY cb
      show ?thesis
        by (simp add: same_frame_def)
    qed
  qed
qed

text \<open>
  C2 as stated fails.  The cache of 1000 bytes holds \<open>key_a\<close> with a one-byte payload
  (\<open>bytes = 257\<close>).  Putting 900 bytes under the same key and aux keys updates the
  entry in place and returns 1 with \<open>bytes = 1156\<close>.
\<close>

theorem put_hit_over_capacity_counterexample:
  "map_option (\<lambda>(oc, c'). (put_rc oc, bytes c', max_bytes c'))
     (put exact_value_gt key_a (replicate 900 0) 900 True 0 0 one_entry_cache)
     = Some (1, 1156, 1000)"
  by (simp add: example_defs prim_defs put_defs Let_def)

theorem put_bytes_bounds_witness:
  "map_option (\<lambda>(oc, c'). (oc, bytes c', bytes c' \<le> max_bytes cache_1000 + 2 * uint ENTRY_OVERHEAD))
     (put exact_value_gt key_a (replicate 900 0) 900 True 0 0 cache_1000)
     = Some (INSERTED, 1156, True)"
proof -
  have "\<exists>c'. put exact_value_gt key_a (replicate 900 0) 900 True 0 0 cache_1000 = Some (INSERTED, c')
      \<and> bytes c' = 1156"
    by (simp add: example_defs prim_defs put_defs Let_def)
  then obtain c' where p: "put exact_value_gt key_a (replicate 900 0) 900 True 0 0 cache_1000
      = Some (INSERTED, c')" and b: "bytes c' = 1156"
    by blast
  from put_bytes_bounds [OF p] have "bytes c' \<le> max_bytes cache_1000 + 2 * uint ENTRY_OVERHEAD"
    by simp
  with p b show ?thesis
    by simp
qed

subsection \<open>The discard of the lookup loop\<close>

lemma destroy_heap:
  "heap (destroy e c) p = (if p = e \<and> \<not> flag_lru (heap c e) then (heap c e)\<lparr> data := None \<rparr>
                           else heap c p)"
  by (simp add: destroy_def lru_remove_def upd_entry_def Let_def)

lemma destroy_ident [simp]:
  "key (heap (destroy e c) p) = key (heap c p)"
  "auxkey1 (heap (destroy e c) p) = auxkey1 (heap c p)"
  "auxkey2 (heap (destroy e c) p) = auxkey2 (heap c p)"
  "flag_lru (heap (destroy e c) p) = flag_lru (heap c p)"
  "size_e (heap (destroy e c) p) = size_e (heap c p)"
  by (simp_all add: destroy_heap)

lemma destroy_queues:
  "lru0 (destroy e c) = (if flag_lru (heap c e) then lru0 c else removeAll e (lru0 c))"
  "lru1 (destroy e c) = (if flag_lru (heap c e) then removeAll e (lru1 c) else lru1 c)"
  "bucket (destroy e c) = (bucket c)(bucket_of (key (heap c e)) c
                             := removeAll e (bucket c (bucket_of (key (heap c e)) c)))"
  by (simp_all add: destroy_def lru_remove_def upd_entry_def bucket_of_def Let_def)

lemma destroy_counters:
  "objects (destroy e c) = objects c - (if flag_lru (heap c e) then 0 else 1)"
  "history (destroy e c) = history c - (if flag_lru (heap c e) then 1 else 0)"
  "bytes (destroy e c) = bytes c - (if flag_lru (heap c e) then 0
                                    else uint (size_e (heap c e) + ENTRY_OVERHEAD))"
  by (simp_all add: destroy_def lru_remove_def upd_entry_def Let_def)

lemma entry_match_destroy [simp]:
  "entry_match k a1 a2 (heap (destroy e c) p) = entry_match k a1 a2 (heap c p)"
  by (simp add: entry_match_def)

lemma bucket_of_destroy [simp]: "bucket_of k (destroy e c) = bucket_of k c"
  by (simp add: bucket_of_def)

lemma put_lookup_fold:
  "put_lookup k a1 a2 es c
     = (find (\<lambda>p. entry_match k a1 a2 (heap c p)) es,
        fold destroy (filter (\<lambda>p. key (heap c p) = k)
                        (takeWhile (\<lambda>p. \<not> entry_match k a1 a2 (heap c p)) es)) c)"
  by (induction es arbitrary: c) (auto simp: entry_match_def)

lemma put_discard_fold: "put_discard k a1 a2 c = fold destroy (put_conflicts k a1 a2 c) c"
  by (simp add: put_discard_def put_conflicts_def put_lookup_fold)

lemma put_lookup_find:
  "fst (put_lookup k a1 a2 es c) = find (\<lambda>p. entry_match k a1 a2 (heap c p)) es"
  by (simp add: put_lookup_fold)

lemma fold_destroy_frame [simp]:
  "max_bytes (fold destroy ds c) = max_bytes c" "nbuckets (fold destroy ds c) = nbuckets c"
  "ibuckets (fold destroy ds c) = ibuckets c" "seen (fold destroy ds c) = seen c"
  "nalloc (fold destroy ds c) = nalloc c"
  by (induction ds arbitrary: c; simp)+

lemma fold_destroy_ident [simp]:
  "key (heap (fold destroy ds c) p) = key (heap c p)"
  "flag_lru (heap (fold destroy ds c) p) = flag_lru (heap c p)"
  "size_e (heap (fold destroy ds c) p) = size_e (heap c p)"
  by (induction ds arbitrary: c; simp)+

lemma fold_destroy_heap:
  "heap (fold destroy ds c) p
     = (if p \<in> set ds \<and> \<not> flag_lru (heap c p) then (heap c p)\<lparr> data := None \<rparr> else heap c p)"
  by (induction ds arbitrary: c) (auto simp: destroy_heap)

lemma fold_destroy_lru0:
  "lru0 (fold destroy ds c) = filter (\<lambda>p. p \<notin> set ds \<or> flag_lru (heap c p)) (lru0 c)"
  by (induction ds arbitrary: c)
     (auto simp: destroy_queues removeAll_filter_not_eq intro!: filter_cong)

lemma fold_destroy_lru1:
  "lru1 (fold destroy ds c) = filter (\<lambda>p. p \<notin> set ds \<or> \<not> flag_lru (heap c p)) (lru1 c)"
  by (induction ds arbitrary: c)
     (auto simp: destroy_queues removeAll_filter_not_eq intro!: filter_cong)

lemma fold_destroy_bucket:
  "\<forall>p\<in>set ds. key (heap c p) = k \<Longrightarrow>
   bucket (fold destroy ds c)
     = (bucket c)(bucket_of k c := filter (\<lambda>p. p \<notin> set ds) (bucket c (bucket_of k c)))"
  by (induction ds arbitrary: c)
     (auto simp: destroy_queues removeAll_filter_not_eq intro!: filter_cong)

lemma fold_destroy_counters:
  "objects (fold destroy ds c)
     = objects c - int (length (filter (\<lambda>p. \<not> flag_lru (heap c p)) ds))"
  "history (fold destroy ds c)
     = history c - int (length (filter (\<lambda>p. flag_lru (heap c p)) ds))"
  "bytes (fold destroy ds c)
     = bytes c - victims_bytes (heap c) (filter (\<lambda>p. \<not> flag_lru (heap c p)) ds)"
  by (induction ds arbitrary: c; simp add: destroy_counters victims_bytes_def)+

lemma put_conflicts_key: "\<forall>p\<in>set (put_conflicts k a1 a2 c). key (heap c p) = k"
  by (simp add: put_conflicts_def)

subsection \<open>Hash chains under the clock and the victim loop\<close>

lemma filter_removeAll_out:
  "e \<in> G \<Longrightarrow> filter (\<lambda>p. p \<notin> G) (removeAll e xs) = filter (\<lambda>p. p \<notin> G) xs"
  by (induction xs) auto

lemma tick_free_chains:
  "e \<in> G \<Longrightarrow> filter (\<lambda>p. p \<notin> G) (bucket (tick_free e c) i) = filter (\<lambda>p. p \<notin> G) (bucket c i)"
  by (simp add: tick_free_def upd_entry_def Let_def filter_removeAll_out)

lemma tick_free_lru1 [simp]: "lru1 (tick_free e c) = lru1 c"
  by (simp add: tick_free_def upd_entry_def Let_def)

lemma tick_free_flag:
  "e \<in> G \<Longrightarrow> p \<notin> G \<Longrightarrow> flag_lru (heap (tick_free e c) p) = flag_lru (heap c p)"
  by (auto simp add: tick_free_def upd_entry_def Let_def)

lemma requeue_victims_flag [simp]:
  "flag_lru (heap (requeue_victims vs c) p) = flag_lru (heap c p)"
  by (induction vs arbitrary: c) (simp_all add: upd_entry_def)

lemma tick_chains:
  assumes "set (lru1 c) \<subseteq> G"
  shows "set (lru1 (tick c)) \<subseteq> G
     \<and> filter (\<lambda>p. p \<notin> G) (bucket (tick c) i) = filter (\<lambda>p. p \<notin> G) (bucket c i)
     \<and> (p \<notin> G \<longrightarrow> flag_lru (heap (tick c) p) = flag_lru (heap c p))"
proof (cases "lru1 c")
  case Nil
  then show ?thesis
    by (simp add: tick_def)
next
  case (Cons e rest)
  with assms have g: "e \<in> G" "set rest \<subseteq> G"
    by auto
  show ?thesis
  proof (cases "rest @ [e]")
    case Nil
    then show ?thesis by simp
  next
    case c2: (Cons e2 rest2)
    then have "set (rest @ [e]) = set (e2 # rest2)"
      by simp
    with g have g2: "e2 \<in> G" "set rest2 \<subseteq> G"
      by auto
    from g g2 Cons c2 show ?thesis
      by (auto simp add: tick_def Let_def tick_free_chains tick_free_flag upd_entry_def)
  qed
qed

lemma take_victim_chains:
  assumes "set (lru1 c) \<subseteq> G"
  shows "set (lru1 (take_victim v rest c)) \<subseteq> G
     \<and> filter (\<lambda>p. p \<notin> G) (bucket (take_victim v rest c) i) = filter (\<lambda>p. p \<notin> G) (bucket c i)
     \<and> (p \<notin> G \<longrightarrow> flag_lru (heap (take_victim v rest c) p) = flag_lru (heap c p))"
proof -
  let ?c3 = "upd_entry v (\<lambda>en. en\<lparr> hits := push_bit 1 (hits en) \<rparr>)
     (let c1 = c\<lparr> lru0 := rest,
                  bytes := bytes c - uint (size_e (heap c v) + ENTRY_OVERHEAD) \<rparr>
      in if compressed c1 = Some v then c1\<lparr> compressed := None \<rparr>
         else c1\<lparr> ncompressed := ncompressed c1 - 1 \<rparr>)"
  have t: "take_victim v rest c = tick ?c3"
    by (simp add: take_victim_def Let_def)
  have "lru1 ?c3 = lru1 c" "bucket ?c3 = bucket c" "flag_lru (heap ?c3 p) = flag_lru (heap c p)"
    by (simp_all add: upd_entry_def Let_def)
  with tick_chains [of ?c3 G i p] assms show ?thesis
    unfolding t by simp
qed

lemma put_loop_chains:
  assumes "lru0 c = q" and "set (lru1 c) \<subseteq> G"
    and "put_loop vgt sz e vs c = Ret_NO_VICTIM c' \<or> put_loop vgt sz e vs c = Ret_INC_HISTORY c'"
  shows "(\<forall>i. filter (\<lambda>p. p \<notin> G) (bucket c' i) = filter (\<lambda>p. p \<notin> G) (bucket c i))
       \<and> set (lru1 c') \<subseteq> G \<union> set_option e
       \<and> (\<forall>p. p \<notin> G \<longrightarrow> flag_lru (heap c' p) = flag_lru (heap c p))"
  using assms
proof (induction q arbitrary: c vs)
  case Nil
  then show ?case
    by (auto simp: put_loop_Nil split: if_splits option.splits)
next
  case (Cons v rest)
  let ?c1 = "take_victim v rest c"
  have l: "lru0 ?c1 = rest"
    by simp
  from take_victim_chains [OF Cons.prems(2)]
  have s1: "set (lru1 ?c1) \<subseteq> G"
    and b1: "\<And>i. filter (\<lambda>p. p \<notin> G) (bucket ?c1 i) = filter (\<lambda>p. p \<notin> G) (bucket c i)"
    and f1: "\<And>p. p \<notin> G \<Longrightarrow> flag_lru (heap ?c1 p) = flag_lru (heap c p)"
    by blast+
  show ?case
  proof (cases e)
    case None
    with Cons.prems show ?thesis
      by (simp add: put_loop_Cons_None)
  next
    case (Some p)
    from Cons.prems(3) consider
      (lost) "c' = (requeue_victims (vs @ [v]) ?c1)\<lparr> lru1 := lru1 (requeue_victims (vs @ [v]) ?c1) @ [p] \<rparr>"
      | (more) "put_loop vgt sz e (vs @ [v]) ?c1 = Ret_NO_VICTIM c'
                \<or> put_loop vgt sz e (vs @ [v]) ?c1 = Ret_INC_HISTORY c'"
      unfolding Some put_loop_Cons_Some [OF Cons.prems(1)]
      by (auto split: if_splits)
    then show ?thesis
    proof cases
      case lost
      show ?thesis
        unfolding lost using s1 b1 f1 Some by auto
    next
      case more
      from Cons.IH [OF l s1 more] b1 f1 show ?thesis
        by simp
    qed
  qed
qed

subsection \<open>Starting a ghost\<close>

lemma same_frame_payload:
  "same_frame c c' \<Longrightarrow> payload_of (heap c' p) = payload_of (heap c p)"
  by (simp add: same_frame_def fun_eq_iff)

lemma put_history_frame:
  assumes "put_history k dat a1 a2 i [v] (take_victim v rest c) = Some (oc, c')"
    and "lru0 c = v # rest"
  shows "oc = HISTORY \<and> max_bytes c' = max_bytes c \<and> bytes c' = bytes c \<and> objects c' = objects c
     \<and> nbuckets c' = nbuckets c \<and> ibuckets c' = ibuckets c \<and> seen c' = seen c
     \<and> lru0 c' = rest @ [v]
     \<and> nalloc c' = nalloc c + 1
     \<and> (\<forall>p. p \<noteq> nalloc c \<longrightarrow> payload_of (heap c' p) = payload_of (heap c p))
     \<and> lru1 c' = lru1 (take_victim v rest c) @ [nalloc c]
     \<and> bucket c' = (bucket (take_victim v rest c))(i := nalloc c # bucket (take_victim v rest c) i)
     \<and> (\<forall>p. p \<noteq> nalloc c
            \<longrightarrow> flag_lru (heap c' p) = flag_lru (heap (take_victim v rest c) p))"
proof -
  let ?c1 = "requeue_victims [v] (take_victim v rest c)"
  have f: "bytes ?c1 = bytes c" "max_bytes ?c1 = max_bytes c" "objects ?c1 = objects c"
    "nbuckets ?c1 = nbuckets c" "ibuckets ?c1 = ibuckets c" "seen ?c1 = seen c"
    "nalloc ?c1 = nalloc c"
    "lru0 ?c1 = rest @ [v]" "\<And>p. payload_of (heap ?c1 p) = payload_of (heap c p)"
    "lru1 ?c1 = lru1 (take_victim v rest c)" "bucket ?c1 = bucket (take_victim v rest c)"
    "\<And>p. flag_lru (heap ?c1 p) = flag_lru (heap (take_victim v rest c) p)"
    using requeue_one_bytes [of v rest c] by (simp_all del: requeue_victims.simps)
  from assms(1) have "oc = HISTORY" and c': "c' = ?c1\<lparr> nalloc := nalloc ?c1 + 1,
      heap := (heap ?c1)(nalloc ?c1 := (clear_flags (proto_entry\<lparr> key := k, auxkey1 := a1,
                 auxkey2 := a2, hits := 1, size_e := block_size dat \<rparr>))\<lparr> flag_lru := True \<rparr>),
      bucket := (bucket ?c1)(i := nalloc ?c1 # bucket ?c1 i),
      lru1 := lru1 ?c1 @ [nalloc ?c1], history := history ?c1 + 1 \<rparr>"
    by (auto simp: put_history_def Let_def simp del: requeue_victims.simps)
  show ?thesis
    unfolding c' using f assms(2) \<open>oc = HISTORY\<close> by (simp del: requeue_victims.simps)
qed

lemma payload_of_data: "payload_of x = payload_of y \<Longrightarrow> data x = data y"
  by (drule arg_cong [where f = data]) (simp add: payload_of_def)

subsection \<open>The seen filter\<close>

lemma put_insert_new_seen:
  "put_insert k dat ln cpy a1 a2 i sz None [] c = Some (oc, c') \<Longrightarrow>
     oc = INSERTED \<and> seen c' = (if int (nbuckets c) < objects c then (\<lambda>_. 0) else seen c)"
  by (auto simp: put_insert_def Let_def resize_hashtable_def upd_entry_def
      split: option.splits if_splits)

lemma put_lookup_nomatch:
  assumes "\<forall>p\<in>set (bucket c (bucket_of k c)). \<not> entry_match k a1 a2 (heap c p)"
  shows "put_lookup k a1 a2 (bucket c (bucket_of k c)) c = (None, put_discard k a1 a2 c)"
proof -
  from assms have "find (\<lambda>p. entry_match k a1 a2 (heap c p)) (bucket c (bucket_of k c)) = None"
    by (simp add: find_None_set)
  then have "fst (put_lookup k a1 a2 (bucket c (bucket_of k c)) c) = None"
    by (simp add: put_lookup_find)
  then show ?thesis
    by (simp add: put_discard_def prod_eq_iff)
qed

text \<open>
  C4, amended.  Take a put on an enabled cache for a key that no entry of its chain
  matches in digest and aux keys.  The lookup first destroys the entries of the digest
  that carry other aux keys (\<open>put_conflicts\<close>): \<open>objects\<close> drops by the residents among
  them and \<open>history\<close> by the ghosts, and the filter is left alone.  The rule is stated on
  the cache after this discard (\<open>put_discard\<close>), with \<open>s = hash mod bucket_sizes[ibuckets]\<close>
  and \<open>k\<close> the top 16 bits of the hash.

  \<^item> If the put takes the initial-fill shortcut (\<open>lru[1]\<close> empty and the payload fits) it
    can only end with the payload stored, and the filter is neither read nor written; if
    the insert grows the table, the whole filter is cleared.
  \<^item> Otherwise, if \<open>history \<ge> objects\<close> and \<open>seen[s] \<noteq> k\<close>, the put returns at the
    filter (tag \<open>UNSEEN\<close>, return code 0) and leaves the cache after the discard with
    \<open>seen[s] = k\<close> and nothing else changed.
  \<^item> Otherwise the put does not return at the filter: with a non-empty \<open>lru[0]\<close> it starts
    a ghost (\<open>HISTORY\<close>); with an empty one it stores the payload if it fits and returns 0
    with no entry or ghost created (\<open>NO_VICTIM\<close>) if not.  Afterwards \<open>seen[s] = k\<close> and
    no other slot differs, unless the insert grew the table and cleared the filter.  The
    puts that start a ghost or find no victim always return.
\<close>

theorem seen_filter_decides:
  assumes en: "max_bytes c \<noteq> 0"
    and nomatch: "\<forall>p\<in>set (bucket c (bucket_of k c)). \<not> entry_match k a1 a2 (heap c p)"
    and tbl: "ibuckets c < length bucket_sizes"
  shows "(objects (put_discard k a1 a2 c)
            = objects c - int (length (filter (\<lambda>p. \<not> flag_lru (heap c p)) (put_conflicts k a1 a2 c)))
        \<and> history (put_discard k a1 a2 c)
            = history c - int (length (filter (\<lambda>p. flag_lru (heap c p)) (put_conflicts k a1 a2 c)))
        \<and> bytes (put_discard k a1 a2 c)
            = bytes c - victims_bytes (heap c)
                          (filter (\<lambda>p. \<not> flag_lru (heap c p)) (put_conflicts k a1 a2 c))
        \<and> lru0 (put_discard k a1 a2 c)
            = filter (\<lambda>p. p \<notin> set (put_conflicts k a1 a2 c) \<or> flag_lru (heap c p)) (lru0 c)
        \<and> lru1 (put_discard k a1 a2 c)
            = filter (\<lambda>p. p \<notin> set (put_conflicts k a1 a2 c) \<or> \<not> flag_lru (heap c p)) (lru1 c)
        \<and> max_bytes (put_discard k a1 a2 c) = max_bytes c
        \<and> seen (put_discard k a1 a2 c) = seen c
        \<and> seen_slot k (put_discard k a1 a2 c) = seen_slot k c)
     \<and> (initial_fill (if cpy then ln else block_size dat) (put_discard k a1 a2 c) \<longrightarrow>
          (\<forall>oc c'. put vgt k dat ln cpy a1 a2 c = Some (oc, c') \<longrightarrow>
             oc = INSERTED
             \<and> seen c' = (if int (nbuckets c) < objects (put_discard k a1 a2 c) then (\<lambda>_. 0)
                          else seen c)))
     \<and> (\<not> initial_fill (if cpy then ln else block_size dat) (put_discard k a1 a2 c)
          \<and> seen_rejects k (put_discard k a1 a2 c) \<longrightarrow>
          put vgt k dat ln cpy a1 a2 c
            = Some (UNSEEN, (put_discard k a1 a2 c)\<lparr> seen := (seen c)(seen_slot k c := seen_tag k) \<rparr>))
     \<and> (\<not> initial_fill (if cpy then ln else block_size dat) (put_discard k a1 a2 c)
          \<and> \<not> seen_rejects k (put_discard k a1 a2 c) \<longrightarrow>
          (\<forall>oc c'. put vgt k dat ln cpy a1 a2 c = Some (oc, c') \<longrightarrow>
             oc = (if lru0 (put_discard k a1 a2 c) \<noteq> [] then HISTORY
                   else if bytes (put_discard k a1 a2 c) + uint (if cpy then ln else block_size dat)
                             \<le> max_bytes c
                        then INSERTED else NO_VICTIM)
             \<and> seen c' = (if oc = INSERTED \<and> int (nbuckets c) < objects (put_discard k a1 a2 c)
                          then (\<lambda>_. 0) else (seen c)(seen_slot k c := seen_tag k)))
          \<and> (lru0 (put_discard k a1 a2 c) \<noteq> []
               \<or> max_bytes c < bytes (put_discard k a1 a2 c) + uint (if cpy then ln else block_size dat)
             \<longrightarrow> (\<exists>oc c'. put vgt k dat ln cpy a1 a2 c = Some (oc, c'))))"
proof -
  let ?D = "put_conflicts k a1 a2 c"
  let ?cd = "put_discard k a1 a2 c"
  let ?sz = "if cpy then ln else block_size dat"
  let ?cb = "?cd\<lparr> seen := (seen c)(seen_slot k c := seen_tag k) \<rparr>"
  have fd: "?cd = fold destroy ?D c"
    by (rule put_discard_fold)
  have dfr: "max_bytes ?cd = max_bytes c" "nbuckets ?cd = nbuckets c" "ibuckets ?cd = ibuckets c"
    "seen ?cd = seen c"
    unfolding fd by simp_all
  then have slot: "seen_slot k ?cd = seen_slot k c"
    by (simp add: seen_slot_def)
  have disc: "objects ?cd = objects c - int (length (filter (\<lambda>p. \<not> flag_lru (heap c p)) ?D))
        \<and> history ?cd = history c - int (length (filter (\<lambda>p. flag_lru (heap c p)) ?D))
        \<and> bytes ?cd = bytes c - victims_bytes (heap c) (filter (\<lambda>p. \<not> flag_lru (heap c p)) ?D)
        \<and> lru0 ?cd = filter (\<lambda>p. p \<notin> set ?D \<or> flag_lru (heap c p)) (lru0 c)
        \<and> lru1 ?cd = filter (\<lambda>p. p \<notin> set ?D \<or> \<not> flag_lru (heap c p)) (lru1 c)
        \<and> max_bytes ?cd = max_bytes c \<and> seen ?cd = seen c \<and> seen_slot k ?cd = seen_slot k c"
    using fd dfr slot fold_destroy_lru0 [of ?D c] fold_destroy_lru1 [of ?D c]
      fold_destroy_counters [of ?D c]
    by (simp only: simp_thms)
  have pa: "put vgt k dat ln cpy a1 a2 c
      = put_admit vgt k dat ln cpy a1 a2 (bucket_of k c) ?sz None ?cd"
    using en put_lookup_nomatch [OF nomatch] by (simp add: put_def Let_def)
  have fill: "\<forall>oc c'. put vgt k dat ln cpy a1 a2 c = Some (oc, c') \<longrightarrow>
             oc = INSERTED
             \<and> seen c' = (if int (nbuckets c) < objects ?cd then (\<lambda>_. 0) else seen c)"
    if "initial_fill ?sz ?cd"
    unfolding pa using that dfr
    by (auto simp: put_admit_def initial_fill_def dest!: put_insert_new_seen)
  have rej: "put vgt k dat ln cpy a1 a2 c = Some (UNSEEN, ?cb)"
    if "\<not> initial_fill ?sz ?cd" "seen_rejects k ?cd"
    unfolding pa using tbl that dfr slot
    by (auto simp: put_admit_def seen_filter_def initial_fill_def seen_rejects_def Let_def)
  have pass: "put vgt k dat ln cpy a1 a2 c =
      (case put_loop vgt ?sz None [] ?cb of
         To_Linsert victims c2 \<Rightarrow> put_insert k dat ln cpy a1 a2 (bucket_of k c) ?sz None victims c2
       | To_Lhistory victims c2 \<Rightarrow> put_history k dat a1 a2 (bucket_of k c) victims c2
       | Ret_NO_VICTIM c2 \<Rightarrow> Some (NO_VICTIM, c2)
       | Ret_INC_HISTORY c2 \<Rightarrow> Some (INC_HISTORY, c2))"
    if "\<not> initial_fill ?sz ?cd" "\<not> seen_rejects k ?cd"
    unfolding pa using tbl that dfr slot
    by (auto simp: put_admit_def seen_filter_def initial_fill_def seen_rejects_def Let_def)
  have after: "(\<forall>oc c'. put vgt k dat ln cpy a1 a2 c = Some (oc, c') \<longrightarrow>
             oc = (if lru0 ?cd \<noteq> [] then HISTORY
                   else if bytes ?cd + uint ?sz \<le> max_bytes c then INSERTED else NO_VICTIM)
             \<and> seen c' = (if oc = INSERTED \<and> int (nbuckets c) < objects ?cd
                          then (\<lambda>_. 0) else (seen c)(seen_slot k c := seen_tag k)))
          \<and> (lru0 ?cd \<noteq> [] \<or> max_bytes c < bytes ?cd + uint ?sz
             \<longrightarrow> (\<exists>oc c'. put vgt k dat ln cpy a1 a2 c = Some (oc, c')))"
    if np: "\<not> initial_fill ?sz ?cd" "\<not> seen_rejects k ?cd"
  proof (cases "lru0 ?cd")
    case Nil
    then have l: "lru0 ?cb = []"
      by simp
    show ?thesis
      unfolding pass [OF np] put_loop_Nil [OF l] using Nil dfr
      by (auto dest!: put_insert_new_seen)
  next
    case (Cons v rest)
    then have l: "lru0 ?cb = v # rest"
      by simp
    have "\<And>oc c'. put_history k dat a1 a2 (bucket_of k c) [v] (take_victim v rest ?cb) = Some (oc, c')
        \<Longrightarrow> oc = HISTORY \<and> seen c' = (seen c)(seen_slot k c := seen_tag k)"
      using put_history_frame [OF _ l] by simp
    moreover have "\<exists>oc c'. put_history k dat a1 a2 (bucket_of k c) [v] (take_victim v rest ?cb)
        = Some (oc, c')"
      by (simp add: put_history_def Let_def)
    ultimately show ?thesis
      unfolding pass [OF np] put_loop_Cons_None [OF l] using Cons
      by auto
  qed
  from disc fill rej after show ?thesis
    by blast
qed

text \<open>
  C4 as stated fails.  On the empty cache \<open>history \<ge> objects\<close> holds and the slot of
  \<open>key_h\<close> holds 0, not the key's tag 1.  The put takes the initial-fill shortcut before
  the filter: it stores the payload and returns 1, and the slot still holds 0.
\<close>

theorem put_initial_fill_skips_seen_filter_counterexample:
  "objects cache_1000 \<le> history cache_1000
   \<and> seen cache_1000 (seen_slot key_h cache_1000) \<noteq> seen_tag key_h
   \<and> bucket cache_1000 (bucket_of key_h cache_1000) = []
   \<and> map_option (\<lambda>(oc, c'). (put_rc oc, seen c' (seen_slot key_h cache_1000), lru0 c'))
        (put exact_value_gt key_h [1] 1 True 0 0 cache_1000) = Some (1, 0, [0])"
  by (simp add: example_defs prim_defs put_defs Let_def)

theorem seen_filter_decides_witness:
  "max_bytes stale_cache \<noteq> 0
   \<and> find (\<lambda>p. entry_match key_h 3 3 (heap stale_cache p))
        (bucket stale_cache (bucket_of key_h stale_cache)) = None
   \<and> ibuckets stale_cache < length bucket_sizes
   \<and> put_conflicts key_h 3 3 stale_cache = [0]
   \<and> \<not> initial_fill 1 (put_discard key_h 3 3 stale_cache)
   \<and> seen_rejects key_h (put_discard key_h 3 3 stale_cache)
   \<and> map_option (\<lambda>(oc, c'). (oc, seen c' (seen_slot key_h stale_cache), lru0 c', lru1 c',
                              objects c', history c', nalloc c'))
        (put exact_value_gt key_h [1] 1 True 3 3 stale_cache)
       = Some (UNSEEN, seen_tag key_h, [], [1], 0, 1, 2)"
proof -
  have h: "max_bytes stale_cache \<noteq> 0"
    "find (\<lambda>p. entry_match key_h 3 3 (heap stale_cache p))
        (bucket stale_cache (bucket_of key_h stale_cache)) = None"
    "ibuckets stale_cache < length bucket_sizes"
    "put_conflicts key_h 3 3 stale_cache = [0]"
    by (simp_all add: example_defs prim_defs put_conflicts_def bucket_sizes_def)
  have d: "\<not> initial_fill (if True then 1 else block_size [1]) (put_discard key_h 3 3 stale_cache)"
    "seen_rejects key_h (put_discard key_h 3 3 stale_cache)"
    by (simp_all add: example_defs prim_defs put_discard_def
        initial_fill_def seen_rejects_def seen_slot_def seen_tag_def bucket_sizes_def Let_def)
  from h(2) have a: "\<forall>p\<in>set (bucket stale_cache (bucket_of key_h stale_cache)).
      \<not> entry_match key_h 3 3 (heap stale_cache p)"
    by (simp add: find_None_set)
  note t = seen_filter_decides [OF h(1) a h(3), where vgt = exact_value_gt and cpy = True
      and ln = 1 and dat = "[1]"]
  from t [THEN conjunct2, THEN conjunct2, THEN conjunct1] d
  have p: "put exact_value_gt key_h [1] 1 True 3 3 stale_cache
      = Some (UNSEEN, (put_discard key_h 3 3 stale_cache)
                \<lparr> seen := (seen stale_cache)(seen_slot key_h stale_cache := seen_tag key_h) \<rparr>)"
    by (simp only: simp_thms if_True)
  note q = t [THEN conjunct1, unfolded h(4)]
  from q have "objects (put_discard key_h 3 3 stale_cache) = 0"
    "history (put_discard key_h 3 3 stale_cache) = 1"
    "lru0 (put_discard key_h 3 3 stale_cache) = []"
    "lru1 (put_discard key_h 3 3 stale_cache) = [1]"
    by (simp_all add: example_defs)
  moreover have "nalloc (put_discard key_h 3 3 stale_cache) = 2"
    by (simp add: put_discard_fold example_defs)
  ultimately show ?thesis
    using h d unfolding p by simp
qed

subsection \<open>What a rejected put changes\<close>

text \<open>
  C9, amended.  Take a put that returns 0 on an enabled cache.

  Before admission is decided the lookup destroys the entries of \<open>put_conflicts\<close>, those
  of the key's chain that carry the digest with other aux keys and stand before the
  first full match, and nothing else: \<open>put_discard\<close> is the cache with exactly these
  destroyed.  They leave their queue and the key's chain, the residents among them lose
  their buffer and are taken off \<open>objects\<close> and \<open>bytes\<close>, the ghosts off \<open>history\<close>;
  every other entry, every other chain, the capacity, the table size, the filter and the
  allocator are as before.

  From the cache after this discard to the cache the put returns: a put that returns at
  the seen filter changes the one filter slot and nothing else.  Every rejected put
  leaves \<open>max_bytes\<close>, \<open>bytes\<close>, \<open>objects\<close>, \<open>nbuckets\<close> and \<open>ibuckets\<close> as they are,
  leaves \<open>lru[0]\<close> the same queue up to a rotation, changes no existing entry in anything
  but its hit counter and, for an entry of the history queue, its queue flag, keeps every
  entry that is not on the history queue in its hash chain at its place among the others,
  puts no entry on the history queue but the key's own ghost, changes no filter slot but
  the key's, and allocates nothing but the one ghost of the tag \<open>HISTORY\<close>.
  Ghosts of the history queue may be aged or freed by the clock, and the compressor's
  cursor may be reset.
\<close>

theorem put_rejection_frame:
  assumes p: "put vgt k dat ln cpy a1 a2 c = Some (oc, c')"
    and rej: "put_rc oc = 0" and en: "oc \<noteq> DISABLED"
  shows "(put_discard k a1 a2 c = fold destroy (put_conflicts k a1 a2 c) c
        \<and> lru0 (put_discard k a1 a2 c)
            = filter (\<lambda>p. p \<notin> set (put_conflicts k a1 a2 c) \<or> flag_lru (heap c p)) (lru0 c)
        \<and> lru1 (put_discard k a1 a2 c)
            = filter (\<lambda>p. p \<notin> set (put_conflicts k a1 a2 c) \<or> \<not> flag_lru (heap c p)) (lru1 c)
        \<and> bucket (put_discard k a1 a2 c)
            = (bucket c)(bucket_of k c :=
                 filter (\<lambda>p. p \<notin> set (put_conflicts k a1 a2 c)) (bucket c (bucket_of k c)))
        \<and> (\<forall>p. heap (put_discard k a1 a2 c) p
                 = (if p \<in> set (put_conflicts k a1 a2 c) \<and> \<not> flag_lru (heap c p)
                    then (heap c p)\<lparr> data := None \<rparr> else heap c p))
        \<and> objects (put_discard k a1 a2 c)
            = objects c - int (length (filter (\<lambda>p. \<not> flag_lru (heap c p)) (put_conflicts k a1 a2 c)))
        \<and> history (put_discard k a1 a2 c)
            = history c - int (length (filter (\<lambda>p. flag_lru (heap c p)) (put_conflicts k a1 a2 c)))
        \<and> bytes (put_discard k a1 a2 c)
            = bytes c - victims_bytes (heap c)
                          (filter (\<lambda>p. \<not> flag_lru (heap c p)) (put_conflicts k a1 a2 c))
        \<and> max_bytes (put_discard k a1 a2 c) = max_bytes c
        \<and> nbuckets (put_discard k a1 a2 c) = nbuckets c
        \<and> ibuckets (put_discard k a1 a2 c) = ibuckets c
        \<and> seen (put_discard k a1 a2 c) = seen c
        \<and> nalloc (put_discard k a1 a2 c) = nalloc c)
     \<and> ((oc = UNSEEN \<longrightarrow>
            c' = (put_discard k a1 a2 c)\<lparr> seen := (seen c)(seen_slot k c := seen_tag k) \<rparr>)
        \<and> max_bytes c' = max_bytes c
        \<and> bytes c' = bytes (put_discard k a1 a2 c)
        \<and> objects c' = objects (put_discard k a1 a2 c)
        \<and> nbuckets c' = nbuckets c
        \<and> ibuckets c' = ibuckets c
        \<and> (\<exists>n\<le>length (lru0 (put_discard k a1 a2 c)).
              lru0 c' = drop n (lru0 (put_discard k a1 a2 c)) @ take n (lru0 (put_discard k a1 a2 c)))
        \<and> (\<forall>p. p \<noteq> nalloc c
               \<longrightarrow> payload_of (heap c' p) = payload_of (heap (put_discard k a1 a2 c) p))
        \<and> (\<forall>p. p \<notin> set (lru1 (put_discard k a1 a2 c)) \<and> p \<noteq> nalloc c
               \<longrightarrow> flag_lru (heap c' p) = flag_lru (heap (put_discard k a1 a2 c) p))
        \<and> (\<forall>i. filter (\<lambda>p. p \<notin> set (lru1 (put_discard k a1 a2 c)) \<and> p \<noteq> nalloc c) (bucket c' i)
               = filter (\<lambda>p. p \<notin> set (lru1 (put_discard k a1 a2 c)) \<and> p \<noteq> nalloc c)
                   (bucket (put_discard k a1 a2 c) i))
        \<and> set (lru1 c') \<subseteq> set (lru1 (put_discard k a1 a2 c)) \<union> {nalloc c}
              \<union> set_option (find (\<lambda>p. entry_match k a1 a2 (heap c p)) (bucket c (bucket_of k c)))
        \<and> (\<forall>i. i \<noteq> seen_slot k c \<longrightarrow> seen c' i = seen c i)
        \<and> nalloc c' = nalloc c + (if oc = HISTORY then 1 else 0))"
proof -
  let ?D = "put_conflicts k a1 a2 c"
  let ?cd = "put_discard k a1 a2 c"
  let ?sz = "if cpy then ln else block_size dat"
  let ?G = "set (lru1 ?cd) \<union> {nalloc c}"
  let ?eo = "find (\<lambda>p. entry_match k a1 a2 (heap c p)) (bucket c (bucket_of k c))"
  have fd: "?cd = fold destroy ?D c"
    by (rule put_discard_fold)
  have dfr: "max_bytes ?cd = max_bytes c" "nbuckets ?cd = nbuckets c" "ibuckets ?cd = ibuckets c"
    "seen ?cd = seen c" "nalloc ?cd = nalloc c"
    unfolding fd by simp_all
  have disc: "?cd = fold destroy ?D c
        \<and> lru0 ?cd = filter (\<lambda>p. p \<notin> set ?D \<or> flag_lru (heap c p)) (lru0 c)
        \<and> lru1 ?cd = filter (\<lambda>p. p \<notin> set ?D \<or> \<not> flag_lru (heap c p)) (lru1 c)
        \<and> bucket ?cd = (bucket c)(bucket_of k c := filter (\<lambda>p. p \<notin> set ?D) (bucket c (bucket_of k c)))
        \<and> (\<forall>p. heap ?cd p = (if p \<in> set ?D \<and> \<not> flag_lru (heap c p)
                               then (heap c p)\<lparr> data := None \<rparr> else heap c p))
        \<and> objects ?cd = objects c - int (length (filter (\<lambda>p. \<not> flag_lru (heap c p)) ?D))
        \<and> history ?cd = history c - int (length (filter (\<lambda>p. flag_lru (heap c p)) ?D))
        \<and> bytes ?cd = bytes c - victims_bytes (heap c) (filter (\<lambda>p. \<not> flag_lru (heap c p)) ?D)
        \<and> max_bytes ?cd = max_bytes c \<and> nbuckets ?cd = nbuckets c \<and> ibuckets ?cd = ibuckets c
        \<and> seen ?cd = seen c \<and> nalloc ?cd = nalloc c"
    using fd dfr fold_destroy_lru0 [of ?D c] fold_destroy_lru1 [of ?D c]
      fold_destroy_bucket [OF put_conflicts_key, of k a1 a2 c]
      fold_destroy_heap [of ?D c] fold_destroy_counters [of ?D c]
    by (simp only: simp_thms)
  have main: "(oc = UNSEEN \<longrightarrow> c' = ?cd\<lparr> seen := (seen c)(seen_slot k c := seen_tag k) \<rparr>)
        \<and> max_bytes c' = max_bytes c \<and> bytes c' = bytes ?cd \<and> objects c' = objects ?cd
        \<and> nbuckets c' = nbuckets c \<and> ibuckets c' = ibuckets c
        \<and> (\<exists>n\<le>length (lru0 ?cd). lru0 c' = drop n (lru0 ?cd) @ take n (lru0 ?cd))
        \<and> (\<forall>p. p \<noteq> nalloc c \<longrightarrow> payload_of (heap c' p) = payload_of (heap ?cd p))
        \<and> (\<forall>p. p \<notin> set (lru1 ?cd) \<and> p \<noteq> nalloc c
               \<longrightarrow> flag_lru (heap c' p) = flag_lru (heap ?cd p))
        \<and> (\<forall>i. filter (\<lambda>p. p \<notin> set (lru1 ?cd) \<and> p \<noteq> nalloc c) (bucket c' i)
               = filter (\<lambda>p. p \<notin> set (lru1 ?cd) \<and> p \<noteq> nalloc c) (bucket ?cd i))
        \<and> set (lru1 c') \<subseteq> set (lru1 ?cd) \<union> {nalloc c} \<union> set_option ?eo
        \<and> (\<forall>i. i \<noteq> seen_slot k c \<longrightarrow> seen c' i = seen c i)
        \<and> nalloc c' = nalloc c + (if oc = HISTORY then 1 else 0)"
    using p
  proof (cases rule: put_cases)
    case disabled
    with en show ?thesis by simp
  next
    case (hit e c1)
    with rej show ?thesis by simp
  next
    case (admit eo ca)
    note fr = admit(5)
    have eo: "eo = ?eo"
      using admit(7) by (simp add: put_lookup_find)
    from fr dfr have slot: "seen_slot k ca = seen_slot k c"
      by (simp add: same_frame_def seen_slot_def)
    have gp: "(\<lambda>p. p \<notin> ?G) = (\<lambda>p. p \<notin> set (lru1 ?cd) \<and> p \<noteq> nalloc c)"
      by auto
    from admit(2) show ?thesis
    proof (cases rule: put_admit_cases)
      case fill
      with rej show ?thesis by simp
    next
      case unseen
      have c': "c' = ?cd\<lparr> seen := (seen c)(seen_slot k c := seen_tag k) \<rparr>"
        using unseen(2,5) admit(6) slot dfr by simp
      have rot: "\<exists>n\<le>length (lru0 ?cd). lru0 c' = drop n (lru0 ?cd) @ take n (lru0 ?cd)"
        unfolding c' by (intro exI [of _ 0]) simp
      show ?thesis
        using rot dfr unseen(3) unfolding c' by auto
    next
      case (loop cb)
      have cbf: "max_bytes cb = max_bytes c" "bytes cb = bytes ?cd" "objects cb = objects ?cd"
        "nbuckets cb = nbuckets c" "ibuckets cb = ibuckets c" "lru0 cb = lru0 ?cd"
        "nalloc cb = nalloc c"
        "\<And>p. payload_of (heap cb p) = payload_of (heap ?cd p)"
        "\<And>i. i \<noteq> seen_slot k c \<Longrightarrow> seen cb i = seen c i"
        "bucket cb = bucket ?cd" "set (lru1 cb) \<subseteq> ?G"
        "\<And>p. flag_lru (heap cb p) = flag_lru (heap ?cd p)"
        using loop(2) admit(3,4,8,9,10) fr slot dfr same_frame_payload [OF fr]
        by (auto simp add: same_frame_def split: if_splits)
      show ?thesis
      proof (cases "put_loop vgt ?sz eo [] cb")
        case (To_Linsert vs c2)
        with loop(4) have "oc = INSERTED"
          by (auto dest: put_insert_outcome)
        with rej show ?thesis by simp
      next
        case (To_Lhistory vs c2)
        with loop(4) have h: "put_history k dat a1 a2 (bucket_of k c) vs c2 = Some (oc, c')"
          by simp
        from put_loop_Lhistory [OF refl To_Lhistory] obtain v rest where
          l: "lru0 cb = v # rest" and "vs = [v]" "c2 = take_victim v rest cb"
          by auto
        with h have "put_history k dat a1 a2 (bucket_of k c) [v] (take_victim v rest cb) = Some (oc, c')"
          by simp
        note hf = put_history_frame [OF this l]
        from take_victim_chains [OF cbf(11), of v rest]
        have tv: "set (lru1 (take_victim v rest cb)) \<subseteq> ?G"
          "\<And>i. filter (\<lambda>p. p \<notin> ?G) (bucket (take_victim v rest cb) i)
                 = filter (\<lambda>p. p \<notin> ?G) (bucket cb i)"
          "\<And>p. p \<notin> ?G \<Longrightarrow> flag_lru (heap (take_victim v rest cb) p) = flag_lru (heap cb p)"
          by blast+
        have rot: "\<exists>n\<le>length (lru0 ?cd). lru0 c' = drop n (lru0 ?cd) @ take n (lru0 ?cd)"
          using hf l cbf(6) by (intro exI [of _ 1]) auto
        have ch: "\<forall>i. filter (\<lambda>p. p \<notin> ?G) (bucket c' i) = filter (\<lambda>p. p \<notin> ?G) (bucket ?cd i)"
          using hf tv(2) cbf(7,10) by simp
        have l1: "set (lru1 c') \<subseteq> ?G \<union> set_option ?eo"
          using hf tv(1) cbf(7) by auto
        have fl: "\<forall>p. p \<notin> ?G \<longrightarrow> flag_lru (heap c' p) = flag_lru (heap ?cd p)"
          using hf tv(3) cbf(7,12) by simp
        from hf cbf rot ch l1 fl show ?thesis
          unfolding gp by simp
      next
        case (Ret_NO_VICTIM c2)
        with loop(4) have oc: "oc = NO_VICTIM" "c2 = c'"
          by simp_all
        from put_loop_rejected [OF refl, of vgt ?sz eo "[]" cb c'] Ret_NO_VICTIM oc
        have f: "same_frame cb c'" "bytes c' = bytes cb"
          by simp_all
        from put_loop_lru0 [OF refl, of vgt ?sz eo "[]" cb c'] Ret_NO_VICTIM oc
        have "lru0 c' = lru0 cb"
          by simp
        then have rot: "\<exists>n\<le>length (lru0 ?cd). lru0 c' = drop n (lru0 ?cd) @ take n (lru0 ?cd)"
          using cbf(6) by (intro exI [of _ 0]) simp
        from put_loop_chains [OF refl cbf(11), of vgt ?sz eo "[]" c'] Ret_NO_VICTIM oc
        have ch: "\<forall>i. filter (\<lambda>p. p \<notin> ?G) (bucket c' i) = filter (\<lambda>p. p \<notin> ?G) (bucket ?cd i)"
          and l1: "set (lru1 c') \<subseteq> ?G \<union> set_option ?eo"
          and fl: "\<forall>p. p \<notin> ?G \<longrightarrow> flag_lru (heap c' p) = flag_lru (heap ?cd p)"
          unfolding cbf(10,12) eo by simp_all
        from f cbf oc same_frame_payload [OF f(1)] rot ch l1 fl show ?thesis
          unfolding gp by (simp add: same_frame_def)
      next
        case (Ret_INC_HISTORY c2)
        with loop(4) have oc: "oc = INC_HISTORY" "c2 = c'"
          by simp_all
        from put_loop_rejected [OF refl, of vgt ?sz eo "[]" cb c'] Ret_INC_HISTORY oc
        have f: "same_frame cb c'" "bytes c' = bytes cb"
          by simp_all
        from put_loop_lru0 [OF refl, of vgt ?sz eo "[]" cb c'] Ret_INC_HISTORY oc
        obtain n where "n \<le> length (lru0 cb)" "lru0 c' = drop n (lru0 cb) @ take n (lru0 cb)"
          by auto
        then have rot: "\<exists>n\<le>length (lru0 ?cd). lru0 c' = drop n (lru0 ?cd) @ take n (lru0 ?cd)"
          unfolding cbf(6) by blast
        from put_loop_chains [OF refl cbf(11), of vgt ?sz eo "[]" c'] Ret_INC_HISTORY oc
        have ch: "\<forall>i. filter (\<lambda>p. p \<notin> ?G) (bucket c' i) = filter (\<lambda>p. p \<notin> ?G) (bucket ?cd i)"
          and l1: "set (lru1 c') \<subseteq> ?G \<union> set_option ?eo"
          and fl: "\<forall>p. p \<notin> ?G \<longrightarrow> flag_lru (heap c' p) = flag_lru (heap ?cd p)"
          unfolding cbf(10,12) eo by simp_all
        from f cbf oc same_frame_payload [OF f(1)] rot ch l1 fl show ?thesis
          unfolding gp by (simp add: same_frame_def)
      qed
    qed
  qed
  from disc main show ?thesis
    by (rule conjI)
qed

text \<open>
  C9 as stated fails.  The cache holds \<open>key_h\<close> with aux keys 1, 1 on \<open>lru[0]\<close> and a
  ghost of another key.  A put of \<open>key_h\<close> with aux keys 2, 2 first destroys the stored
  entry and is then rejected by the seen filter: it returns 0, and the entry is gone from
  \<open>lru[0]\<close> and from its chain, its buffer released.
\<close>

theorem put_rejected_destroys_stale_entry_counterexample:
  "lru0 stale_cache = [0] \<and> bucket stale_cache 9 = [0] \<and> data (heap stale_cache 0) = Some [1]
   \<and> map_option (\<lambda>(oc, c'). (put_rc oc, lru0 c', bucket c' 9, objects c', data (heap c' 0)))
        (put exact_value_gt key_h [7] 1 True 2 2 stale_cache) = Some (0, [], [], 0, None)"
  by (simp add: example_defs prim_defs put_defs Let_def)

theorem put_rejection_frame_witness:
  "map_option (\<lambda>(oc, c'). (oc, put_rc oc, bytes c', objects c', set (lru0 c'), data (heap c' 0),
                            nalloc c', 0 \<in> set (bucket c' 5), 1 \<in> set (bucket c' 6)))
     (put exact_value_gt key_h (replicate 600 0) 600 True 0 0 contest_cache)
     = Some (INC_HISTORY, 0, 712, 2, {0, 1}, Some (replicate 100 0), 3, True, True)"
proof -
  have "\<exists>c'. put exact_value_gt key_h (replicate 600 0) 600 True 0 0 contest_cache
      = Some (INC_HISTORY, c')"
    by (simp add: example_defs prim_defs put_defs put_loop.simps exact_value_gt_def Let_def)
  then obtain c' where p: "put exact_value_gt key_h (replicate 600 0) 600 True 0 0 contest_cache
      = Some (INC_HISTORY, c')"
    by blast
  have n: "put_conflicts key_h 0 0 contest_cache = []"
    by (simp add: example_defs prim_defs put_conflicts_def)
  have r: "put_rc INC_HISTORY = 0" "INC_HISTORY \<noteq> DISABLED"
    by simp_all
  note fr = put_rejection_frame [OF p r]
  from fr [THEN conjunct1, THEN conjunct1]
  have d: "put_discard key_h 0 0 contest_cache = contest_cache"
    unfolding n by simp
  note m = fr [THEN conjunct2, unfolded d]
  from m have f: "bytes c' = bytes contest_cache"
    "objects c' = objects contest_cache"
    "nalloc c' = nalloc contest_cache"
    "payload_of (heap c' 0) = payload_of (heap contest_cache 0)"
    "\<exists>n\<le>length (lru0 contest_cache).
        lru0 c' = drop n (lru0 contest_cache) @ take n (lru0 contest_cache)"
    "\<And>i. filter (\<lambda>p. p \<notin> set (lru1 contest_cache) \<and> p \<noteq> nalloc contest_cache) (bucket c' i)
         = filter (\<lambda>p. p \<notin> set (lru1 contest_cache) \<and> p \<noteq> nalloc contest_cache)
             (bucket contest_cache i)"
    by (simp_all add: example_defs)
  from f(5) obtain m where "lru0 c' = drop m (lru0 contest_cache) @ take m (lru0 contest_cache)"
    by blast
  then have s: "set (lru0 c') = set (lru0 contest_cache)"
    using set_append [of "take m (lru0 contest_cache)" "drop m (lru0 contest_cache)"] by auto
  have "0 \<in> set (filter (\<lambda>p. p \<notin> set (lru1 contest_cache) \<and> p \<noteq> nalloc contest_cache) (bucket c' 5))"
    "1 \<in> set (filter (\<lambda>p. p \<notin> set (lru1 contest_cache) \<and> p \<noteq> nalloc contest_cache) (bucket c' 6))"
    unfolding f(6) by (simp_all add: example_defs)
  then have b: "0 \<in> set (bucket c' 5)" "1 \<in> set (bucket c' 6)"
    by simp_all
  from p f(1-4) s b payload_of_data [of "heap c' 0" "heap contest_cache 0"] show ?thesis
    by (auto simp: example_defs)
qed

end
